theory Spec2Isabelle
  imports Main
begin

section \<open>Unparser derivation for parser-combinator grammars (langkit/unparsers.py)\<close>

text \<open>
  A shallow embedding of \<^verbatim>\<open>src/langkit/unparsers.py\<close>. Python objects become records and
  datatypes compared by value, every raise becomes an \<open>Inl\<close> result, and the mutable
  registry (the \<^verbatim>\<open>Unparsers\<close> object together with the \<^verbatim>\<open>generate_unparser\<close> flag of its
  context) is a record passed through the functions that update it.
\<close>

subsection \<open>Lexer tokens, node types and parser combinators\<close>

text \<open>
  These classes live in \<^verbatim>\<open>langkit.lexer\<close>, \<^verbatim>\<open>langkit.compiled_types\<close> and
  \<^verbatim>\<open>langkit.parsers\<close>; only the attributes that \<^verbatim>\<open>unparsers.py\<close> reads are kept.
  A token kind (\<^verbatim>\<open>TokenAction\<close>) has a \<^verbatim>\<open>matcher\<close> that is either \<^verbatim>\<open>None\<close> or a
  literal whose \<^verbatim>\<open>to_match\<close> text is stored here.
\<close>

record token_action =
  tok_name :: string
  matcher :: "string option"

definition Termination :: token_action where
  "Termination = \<lparr>tok_name = ''Termination'', matcher = None\<rparr>"

record field =
  qualname :: string

record node_type =
  dsl_name :: string
  type_name :: string
  abstract :: bool
  synthetic :: bool
  is_token_node :: bool
  is_ast_node :: bool
  is_base_list_type :: bool
  parse_fields :: "field list"

text \<open>
  The enum node type of a boolean-alternative optional (\<^verbatim>\<open>Opt(...).as_bool(T)\<close>):
  \<^verbatim>\<open>_alt_present.type\<close> and the \<^verbatim>\<open>type\<close> of every member of \<^verbatim>\<open>_alternatives\<close>.
\<close>

record booleanize =
  alt_present_type :: node_type
  alternatives_types :: "node_type list"

text \<open>
  The closed set of combinators. \<^verbatim>\<open>_Extract\<close> and \<^verbatim>\<open>_Transform\<close> always wrap a
  \<^verbatim>\<open>_Row\<close> (the source asserts it wherever it opens one), so they hold the row's
  sub-parsers directly and their \<^verbatim>\<open>parser\<close> attribute is \<open>Row ps\<close>. \<^verbatim>\<open>List\<close> holds its
  element parser and its optional separator, \<^verbatim>\<open>Opt\<close> its sub-parser, \<^verbatim>\<open>_booleanize\<close>
  and \<^verbatim>\<open>_is_error\<close>, \<^verbatim>\<open>_Token\<close> its token kind and \<^verbatim>\<open>match_text\<close>
  (\<^verbatim>\<open>''\<close> when there is none), \<^verbatim>\<open>Defer\<close> the name of the rule it refers to.
\<close>

datatype parser =
    Defer string
  | DontSkip parser
  | List parser "parser option"
  | NoBacktrack
  | Null
  | Opt parser "booleanize option" bool
  | Or "parser list"
  | Predicate parser
  | Skip
  | Extract "parser list" nat
  | Row "parser list"
  | Token token_action string
  | Transform "parser list"

text \<open>A grammar rule handed to \<^verbatim>\<open>Unparsers.compute\<close>: the parser with its \<^verbatim>\<open>name\<close> and
  its \<^verbatim>\<open>is_dont_skip_parser\<close> attribute.\<close>

record rule =
  rule_name :: string
  is_dont_skip_parser :: bool
  rule_parser :: parser

subsection \<open>Errors and diagnostics\<close>

text \<open>
  A Python value passed to \<^verbatim>\<open>check_source_language\<close>: a boolean, a string, or a
  message template formatted with the representation of a parser.
\<close>

datatype pyval = PyBool bool | PyStr string | PyFmt string parser

fun truthy :: "pyval \<Rightarrow> bool" where
  "truthy (PyBool b) = b"
| "truthy (PyStr s) = (s \<noteq> [])"
| "truthy (PyFmt t p) = True"

datatype error =
    Fatal pyval
  | AssertionError
  | IndexError
  | AttributeError
  | NotImplementedError

definition ebind :: "error + 'a \<Rightarrow> ('a \<Rightarrow> error + 'b) \<Rightarrow> error + 'b" where
  "ebind m f = (case m of Inl e \<Rightarrow> Inl e | Inr x \<Rightarrow> f x)"

text \<open>
  Modelled from the spec: \<^verbatim>\<open>langkit.diagnostics.check_source_language(predicate, message)\<close>
  is not under src/. It is the fatal assertion primitive: when \<^verbatim>\<open>predicate\<close> is falsy it
  raises the diagnostic carrying \<^verbatim>\<open>message\<close> and compilation stops.
\<close>

definition check_source_language :: "pyval \<Rightarrow> pyval \<Rightarrow> error + unit" where
  "check_source_language predicate message =
     (if truthy predicate then Inr () else Inl (Fatal message))"

subsection \<open>TokenUnparser\<close>

record token_unparser =
  token :: token_action
  match_text :: "string option"

definition truthy_text :: "string option \<Rightarrow> bool" where
  "truthy_text m = (case m of None \<Rightarrow> False | Some s \<Rightarrow> s \<noteq> [])"

definition TokenUnparser_init :: "token_action \<Rightarrow> string option \<Rightarrow> error + token_unparser" where
  "TokenUnparser_init t m =
     (if (matcher t = None) = truthy_text m
      then Inr \<lparr>token = t, match_text = m\<rparr>
      else Inl AssertionError)"

type_synonym token_cache = "(token_action \<times> string option) \<rightharpoonup> token_unparser"

text \<open>The body of \<^verbatim>\<open>TokenUnparser.from_parser\<close> for a token parser: the unparser is
  fetched from the registry's cache under the key (token, match_text) or created and
  stored there; \<^verbatim>\<open>parser.match_text or None\<close> turns the empty text into \<^verbatim>\<open>None\<close>.\<close>

definition token_unparser_for ::
  "token_action \<Rightarrow> string \<Rightarrow> token_cache \<Rightarrow> error + (token_unparser \<times> token_cache)" where
  "token_unparser_for val mt c =
     (let m = (if mt \<noteq> [] then Some mt else None); key = (val, m)
      in case c key of
           Some r \<Rightarrow> Inr (r, c)
         | None \<Rightarrow> ebind (TokenUnparser_init val m) (\<lambda>r. Inr (r, c(key \<mapsto> r))))"

fun TokenUnparser_from_parser ::
  "parser option \<Rightarrow> token_cache \<Rightarrow> error + (token_unparser option \<times> token_cache)" where
  "TokenUnparser_from_parser None c = Inr (None, c)"
| "TokenUnparser_from_parser (Some (Token val mt)) c =
     ebind (token_unparser_for val mt c) (\<lambda>(r, c'). Inr (Some r, c'))"
| "TokenUnparser_from_parser (Some p) c = Inl AssertionError"

definition TokenUnparser_dumps :: "token_unparser \<Rightarrow> error + string" where
  "TokenUnparser_dumps tu =
     (case match_text tu of
        Some (x # xs) \<Rightarrow> Inr (x # xs)
      | _ \<Rightarrow> (case matcher (token tu) of Some m \<Rightarrow> Inr m | None \<Rightarrow> Inl AttributeError))"

fun equivalent :: "token_unparser option \<Rightarrow> token_unparser option \<Rightarrow> error + bool" where
  "equivalent None token2 = Inr (token2 = None)"
| "equivalent (Some a) None = Inr False"
| "equivalent (Some a) (Some b) =
     ebind (TokenUnparser_dumps a) (\<lambda>x. ebind (TokenUnparser_dumps b) (\<lambda>y. Inr (x = y)))"

fun dump_or_none :: "token_unparser option \<Rightarrow> error + string" where
  "dump_or_none None = Inr ''<none>''"
| "dump_or_none (Some t) = TokenUnparser_dumps t"

subsection \<open>TokenSequenceUnparser\<close>

type_synonym token_sequence = "token_unparser list"

fun join :: "string \<Rightarrow> string list \<Rightarrow> string" where
  "join sep [] = []"
| "join sep [x] = x"
| "join sep (x # y # ys) = x @ sep @ join sep (y # ys)"

fun dumps_each :: "token_sequence \<Rightarrow> error + string list" where
  "dumps_each [] = Inr []"
| "dumps_each (t # ts) =
     ebind (TokenUnparser_dumps t) (\<lambda>d. ebind (dumps_each ts) (\<lambda>ds. Inr (d # ds)))"

definition TokenSequenceUnparser_dumps :: "token_sequence \<Rightarrow> error + string" where
  "TokenSequenceUnparser_dumps ts = ebind (dumps_each ts) (\<lambda>ds. Inr (join '' '' ds))"

text \<open>\<^verbatim>\<open>all(TokenUnparser.equivalent(tok1, tok2) for tok1, tok2 in zip(...))\<close>: the
  generator stops at the first pair that is not equivalent.\<close>

fun all_equivalent :: "(token_unparser \<times> token_unparser) list \<Rightarrow> error + bool" where
  "all_equivalent [] = Inr True"
| "all_equivalent ((tok1, tok2) # rest) =
     ebind (equivalent (Some tok1) (Some tok2))
       (\<lambda>e. if e then all_equivalent rest else Inr False)"

definition newline :: string where
  "newline = [CHR 0x0A]"

definition check_equivalence ::
  "string \<Rightarrow> token_sequence \<Rightarrow> token_sequence \<Rightarrow> error + unit" where
  "check_equivalence sequence_name self other =
     ebind (if length self = length other then all_equivalent (zip self other) else Inr False)
       (\<lambda>ok. ebind (TokenSequenceUnparser_dumps self)
         (\<lambda>d1. ebind (TokenSequenceUnparser_dumps other)
           (\<lambda>d2. check_source_language (PyBool ok)
              (PyStr (''Inconsistent '' @ sequence_name @ '':'' @ newline @ ''  '' @ d1
                      @ newline @ ''and:'' @ newline @ ''  '' @ d2)))))"

subsection \<open>FieldUnparser\<close>

record field_unparser =
  fu_node :: node_type
  fu_field :: field
  always_absent :: bool
  fu_pre_tokens :: token_sequence
  fu_post_tokens :: token_sequence

definition FieldUnparser_init :: "node_type \<Rightarrow> field \<Rightarrow> field_unparser" where
  "FieldUnparser_init node f =
     \<lparr>fu_node = node, fu_field = f, always_absent = True,
      fu_pre_tokens = [], fu_post_tokens = []\<rparr>"

definition FieldUnparser_combine :: "field_unparser \<Rightarrow> field_unparser \<Rightarrow> error + field_unparser" where
  "FieldUnparser_combine self other =
     (if fu_node other \<noteq> fu_node self then Inl AssertionError
      else if fu_field other \<noteq> fu_field self then Inl AssertionError
      else if always_absent self then Inr other
      else if always_absent other then Inr self
      else ebind (check_equivalence (''prefix tokens for '' @ qualname (fu_field self))
                    (fu_pre_tokens self) (fu_pre_tokens other))
             (\<lambda>_. ebind (check_equivalence (''postfix tokens for '' @ qualname (fu_field self))
                            (fu_post_tokens self) (fu_post_tokens other))
                     (\<lambda>_. Inr self)))"

subsection \<open>Node unparsers\<close>

record regular_node_unparser =
  rn_node :: node_type
  pre_tokens :: token_sequence
  field_unparsers :: "field_unparser list"
  inter_tokens :: "token_sequence list"
  post_tokens :: token_sequence

datatype node_unparser =
    RegularNodeUnparser regular_node_unparser
  | ListNodeUnparser node_type "token_unparser option"
  | TokenNodeUnparser node_type
  | NullNodeUnparser node_type

definition RegularNodeUnparser_init :: "node_type \<Rightarrow> regular_node_unparser" where
  "RegularNodeUnparser_init node =
     \<lparr>rn_node = node, pre_tokens = [],
      field_unparsers = map (FieldUnparser_init node) (parse_fields node),
      inter_tokens = replicate (length (parse_fields node) - 1) [],
      post_tokens = []\<rparr>"

definition ListNodeUnparser_combine ::
  "node_type \<Rightarrow> token_unparser option \<Rightarrow> node_type \<Rightarrow> token_unparser option
     \<Rightarrow> error + node_unparser" where
  "ListNodeUnparser_combine self_node self_separator other_node other_separator =
     (if self_node \<noteq> other_node then Inl AssertionError
      else ebind (dump_or_none self_separator)
        (\<lambda>d1. ebind (dump_or_none other_separator)
          (\<lambda>d2. ebind (equivalent self_separator other_separator)
            (\<lambda>eq. ebind (check_source_language
                            (PyStr (''Inconsistent separation token for '' @ dsl_name self_node
                                    @ '': '' @ d1 @ '' and '' @ d2))
                            (PyBool eq))
              (\<lambda>_. Inr (ListNodeUnparser self_node self_separator))))))"

subsection \<open>Sequencing of results; well-formed token unparsers\<close>

definition valid_token :: "token_unparser \<Rightarrow> bool" where
  "valid_token tu = ((matcher (token tu) = None) = truthy_text (match_text tu))"

lemma ebind_Inr [simp]: "ebind (Inr x) f = f x"
  by (simp add: ebind_def)

lemma ebind_Inl [simp]: "ebind (Inl e) f = Inl e"
  by (simp add: ebind_def)

lemma ebind_cong [fundef_cong]:
  "m = m' \<Longrightarrow> (\<And>x. m' = Inr x \<Longrightarrow> f x = f' x) \<Longrightarrow> ebind m f = ebind m' f'"
  by (auto simp: ebind_def split: sum.splits)

definition tokens_valid :: "field_unparser \<Rightarrow> bool" where
  "tokens_valid fu = (list_all valid_token (fu_pre_tokens fu) \<and> list_all valid_token (fu_post_tokens fu))"

definition absent_has_no_tokens :: "field_unparser \<Rightarrow> bool" where
  "absent_has_no_tokens fu = (always_absent fu \<longrightarrow> fu_pre_tokens fu = [] \<and> fu_post_tokens fu = [])"

definition sequences_equivalent :: "token_sequence \<Rightarrow> token_sequence \<Rightarrow> bool" where
  "sequences_equivalent xs ys = list_all2 (\<lambda>a b. equivalent (Some a) (Some b) = Inr True) xs ys"

subsection \<open>Derivation: NodeUnparser.from_parser and its helpers\<close>

fun unwrap_dont_skip :: "parser \<Rightarrow> parser" where
  "unwrap_dont_skip (DontSkip subparser) = subparser"
| "unwrap_dont_skip parser = parser"

text \<open>
  Modelled from the spec: \<^verbatim>\<open>Parser.children()\<close> of \<^verbatim>\<open>langkit.parsers\<close> is not under
  src/. Every combinator exposes its child sub-parsers: the wrapped parser, the members
  of a row or an alternation, the element parser and the separator of a list (when there
  is one). An extraction and a transform have their row as only child. The error-recovery
  parser \<^verbatim>\<open>Skip\<close> is skipped entirely, so it has no child to walk.
\<close>

fun children :: "parser \<Rightarrow> parser list" where
  "children (DontSkip subparser) = [subparser]"
| "children (List p sep) = (case sep of None \<Rightarrow> [p] | Some s \<Rightarrow> [p, s])"
| "children (Opt p b e) = [p]"
| "children (Or ps) = ps"
| "children (Predicate p) = [p]"
| "children (Extract ps i) = [Row ps]"
| "children (Row ps) = ps"
| "children (Transform ps) = [Row ps]"
| "children p = []"

text \<open>
  Modelled from the spec: \<^verbatim>\<open>Parser.discard()\<close> of \<^verbatim>\<open>langkit.parsers\<close> is not under
  src/. It holds of the pure-token sub-parsers of a row, which produce no field: token
  matches, no-backtrack markers, rows of such parsers, and optional parsers without a
  boolean alternative around such a parser.
\<close>

fun discard :: "parser \<Rightarrow> bool" where
  "discard (Token val mt) = True"
| "discard NoBacktrack = True"
| "discard (Row ps) = list_all discard ps"
| "discard (Opt p b e) = (b = None \<and> discard p)"
| "discard (DontSkip subparser) = discard subparser"
| "discard p = False"

text \<open>The size of a parser, the measure by which the recursive functions below
  terminate: a child is always smaller than its parent.\<close>

fun psz :: "parser \<Rightarrow> nat" where
  "psz (DontSkip p) = 1 + psz p"
| "psz (List p sep) = 1 + psz p + (case sep of None \<Rightarrow> 0 | Some s \<Rightarrow> psz s)"
| "psz (Opt p b e) = 1 + psz p"
| "psz (Or ps) = 1 + sum_list (map psz ps)"
| "psz (Predicate p) = 1 + psz p"
| "psz (Extract ps i) = 2 + sum_list (map psz ps)"
| "psz (Row ps) = 1 + sum_list (map psz ps)"
| "psz (Transform ps) = 2 + sum_list (map psz ps)"
| "psz p = 1"

lemma psz_pos [simp]: "0 < psz p"
  by (cases p) simp_all

lemma psz_unwrap: "psz (unwrap_dont_skip p) \<le> psz p"
  by (cases p) simp_all

lemma unwrap_eq_le: "unwrap_dont_skip p = q \<Longrightarrow> psz q \<le> psz p"
  using psz_unwrap[of p] by simp

lemma psz_member: "p \<in> set ps \<Longrightarrow> psz p \<le> sum_list (map psz ps)"
  by (induction ps) auto

text \<open>\<^verbatim>\<open>NodeUnparser._emit_to_token_sequence\<close> and its loop over the sub-parsers of a
  row; the token sequence is returned with the tokens appended.\<close>

function emit_to_token_sequence ::
    "parser \<Rightarrow> token_sequence \<Rightarrow> token_cache \<Rightarrow> error + (token_sequence \<times> token_cache)"
  and emit_each ::
    "parser list \<Rightarrow> token_sequence \<Rightarrow> token_cache \<Rightarrow> error + (token_sequence \<times> token_cache)"
where
  "emit_to_token_sequence parser token_sequence c =
     (case unwrap_dont_skip parser of
        Row parsers \<Rightarrow> emit_each parsers token_sequence c
      | Token val mt \<Rightarrow>
          ebind (token_unparser_for val mt c) (\<lambda>(tu, c'). Inr (token_sequence @ [tu], c'))
      | Opt p b is_error \<Rightarrow>
          (if is_error then emit_to_token_sequence p token_sequence c
           else Inl (Fatal (PyFmt ''Static sequence of tokens expected, but got: {}''
                             (unwrap_dont_skip parser))))
      | DontSkip p \<Rightarrow> Inr (token_sequence, c)
      | NoBacktrack \<Rightarrow> Inr (token_sequence, c)
      | _ \<Rightarrow> Inl (Fatal (PyFmt ''Static sequence of tokens expected, but got: {}''
                          (unwrap_dont_skip parser))))"
| "emit_each [] token_sequence c = Inr (token_sequence, c)"
| "emit_each (subparser # rest) token_sequence c =
     ebind (emit_to_token_sequence subparser token_sequence c)
       (\<lambda>(token_sequence', c'). emit_each rest token_sequence' c')"
  by pat_completeness auto
termination
  by (relation "measure (\<lambda>x. case x of Inl (p, _) \<Rightarrow> 2 * psz p
                                       | Inr (ps, _) \<Rightarrow> 2 * sum_list (map psz ps) + 1)")
     (auto dest: unwrap_eq_le)

text \<open>\<^verbatim>\<open>NodeUnparser._split_extract\<close>; \<^verbatim>\<open>subparsers[parser.index]\<close> raises when the
  index is not in the row.\<close>

definition split_extract ::
  "parser list \<Rightarrow> nat \<Rightarrow> token_cache
     \<Rightarrow> error + (token_sequence \<times> parser \<times> token_sequence \<times> token_cache)" where
  "split_extract subparsers index c =
     ebind (emit_each (take index subparsers) [] c)
       (\<lambda>(pre_toks, c1).
          if index < length subparsers
          then ebind (emit_each (drop (index + 1) subparsers) [] c1)
                 (\<lambda>(post_toks, c2). Inr (pre_toks, subparsers ! index, post_toks, c2))
          else Inl IndexError)"

lemma split_extract_member:
  "split_extract ps i c = Inr (pre, np, post, c') \<Longrightarrow> np \<in> set ps"
  by (auto simp: split_extract_def ebind_def split: sum.splits if_splits prod.splits)

lemma split_extract_psz:
  assumes "unwrap_dont_skip parser = Extract ps i" and "split_extract ps i c = Inr (pre, np, post, c')"
  shows "psz np < psz parser"
proof -
  have "psz np \<le> sum_list (map psz ps)"
    using split_extract_member[OF assms(2)] by (rule psz_member)
  moreover have "psz (Extract ps i) \<le> psz parser"
    using assms(1) by (rule unwrap_eq_le)
  ultimately show ?thesis by simp
qed

text \<open>
  \<^verbatim>\<open>NodeUnparser.from_parser\<close>, \<^verbatim>\<open>_emit_to_field_unparser\<close>, the loop of
  \<^verbatim>\<open>from_parser\<close> over the sub-parsers of a transform's row (\<open>transform_loop\<close>) and the
  loop of \<^verbatim>\<open>_emit_to_field_unparser\<close> over the branches of an alternation
  (\<open>or_branches\<close>). \<^verbatim>\<open>get_type\<close>, the type a parser produces, belongs to
  \<^verbatim>\<open>langkit.parsers\<close> and is a parameter. The token cache of the registry is passed
  through.
\<close>

function from_parser ::
    "(parser \<Rightarrow> node_type) \<Rightarrow> node_type \<Rightarrow> parser \<Rightarrow> token_cache
       \<Rightarrow> error + (node_unparser \<times> token_cache)"
  and emit_to_field_unparser ::
    "(parser \<Rightarrow> node_type) \<Rightarrow> parser \<Rightarrow> field_unparser \<Rightarrow> token_cache
       \<Rightarrow> error + (field_unparser \<times> token_cache)"
  and transform_loop ::
    "(parser \<Rightarrow> node_type) \<Rightarrow> parser list \<Rightarrow> nat \<Rightarrow> regular_node_unparser \<Rightarrow> token_cache
       \<Rightarrow> error + (regular_node_unparser \<times> token_cache)"
  and or_branches ::
    "(parser \<Rightarrow> node_type) \<Rightarrow> parser list \<Rightarrow> token_cache \<Rightarrow> error + token_cache"
where
  "from_parser get_type node parser c =
     (if abstract node \<or> synthetic node then Inl AssertionError
      else if is_token_node node then
        (case unwrap_dont_skip parser of
           Transform subparsers \<Rightarrow> Inr (TokenNodeUnparser node, c)
         | _ \<Rightarrow> Inl (Fatal (PyFmt ''Unsupported token node parser for unparsers generation: {}''
                             (unwrap_dont_skip parser))))
      else
        (case unwrap_dont_skip parser of
           Transform subparsers \<Rightarrow>
             ebind (transform_loop get_type subparsers 0 (RegularNodeUnparser_init node) c)
               (\<lambda>(result, c'). Inr (RegularNodeUnparser result, c'))
         | List p sep \<Rightarrow>
             ebind (TokenUnparser_from_parser sep c)
               (\<lambda>(separator, c'). Inr (ListNodeUnparser node separator, c'))
         | Opt p b e \<Rightarrow>
             (case b of
                Some bz \<Rightarrow>
                  (if node = alt_present_type bz
                   then ebind (emit_to_token_sequence p (pre_tokens (RegularNodeUnparser_init node)) c)
                          (\<lambda>(toks, c'). Inr (RegularNodeUnparser
                                               ((RegularNodeUnparser_init node)\<lparr>pre_tokens := toks\<rparr>), c'))
                   else Inr (RegularNodeUnparser (RegularNodeUnparser_init node), c))
              | None \<Rightarrow> from_parser get_type node p c)
         | Null \<Rightarrow> Inr (NullNodeUnparser node, c)
         | _ \<Rightarrow> Inl (Fatal (PyFmt ''Unsupported parser for unparsers generation: {}''
                             (unwrap_dont_skip parser)))))"
| "emit_to_field_unparser get_type parser field_unparser c =
     (case unwrap_dont_skip parser of
        Defer n \<Rightarrow> Inr (field_unparser\<lparr>always_absent := False\<rparr>, c)
      | List p sep \<Rightarrow> Inr (field_unparser\<lparr>always_absent := False\<rparr>, c)
      | Null \<Rightarrow> Inr (field_unparser, c)
      | Transform ps \<Rightarrow> Inr (field_unparser\<lparr>always_absent := False\<rparr>, c)
      | Opt p b e \<Rightarrow>
          (case b of
             None \<Rightarrow> emit_to_field_unparser get_type p (field_unparser\<lparr>always_absent := False\<rparr>) c
           | Some bz \<Rightarrow> Inr (field_unparser, c))
      | Or ps \<Rightarrow>
          ebind (or_branches get_type ps c)
            (\<lambda>c'. Inr (field_unparser\<lparr>always_absent := False\<rparr>, c'))
      | Extract ps index \<Rightarrow>
          ebind (split_extract ps index c)
            (\<lambda>(pre_toks, node_parser, post_toks, c').
               emit_to_field_unparser get_type node_parser
                 (field_unparser\<lparr>always_absent := False,
                    fu_pre_tokens := fu_pre_tokens field_unparser @ pre_toks,
                    fu_post_tokens := post_toks @ fu_post_tokens field_unparser\<rparr>) c')
      | _ \<Rightarrow> Inl (Fatal (PyFmt ''Unsupported parser for node field: {}''
                          (unwrap_dont_skip parser))))"
| "transform_loop get_type [] next_field result c = Inr (result, c)"
| "transform_loop get_type (subp # rest) next_field result c =
     (if discard subp then
        (if next_field = 0 then
           ebind (emit_to_token_sequence subp (pre_tokens result) c)
             (\<lambda>(toks, c'). transform_loop get_type rest next_field
                              (result\<lparr>pre_tokens := toks\<rparr>) c')
         else if next_field < length (field_unparsers result) then
           (if next_field - 1 < length (inter_tokens result) then
              ebind (emit_to_token_sequence subp (inter_tokens result ! (next_field - 1)) c)
                (\<lambda>(toks, c'). transform_loop get_type rest next_field
                     (result\<lparr>inter_tokens := (inter_tokens result)[next_field - 1 := toks]\<rparr>) c')
            else Inl IndexError)
         else
           ebind (emit_to_token_sequence subp (post_tokens result) c)
             (\<lambda>(toks, c'). transform_loop get_type rest next_field
                              (result\<lparr>post_tokens := toks\<rparr>) c'))
      else if next_field < length (field_unparsers result) then
        ebind (emit_to_field_unparser get_type subp (field_unparsers result ! next_field) c)
          (\<lambda>(fu, c'). transform_loop get_type rest (next_field + 1)
               (result\<lparr>field_unparsers := (field_unparsers result)[next_field := fu]\<rparr>) c')
      else Inl IndexError)"
| "or_branches get_type [] c = Inr c"
| "or_branches get_type (subparser # rest) c =
     (case subparser of
        Defer n \<Rightarrow> or_branches get_type rest c
      | _ \<Rightarrow> ebind (from_parser get_type (get_type subparser) subparser c)
               (\<lambda>(u, c'). or_branches get_type rest c'))"
  by pat_completeness auto
termination
  apply (relation "measure (\<lambda>x. case x of
            Inl (Inl (_, _, p, _)) \<Rightarrow> 2 * psz p
          | Inl (Inr (_, p, _, _)) \<Rightarrow> 2 * psz p
          | Inr (Inl (_, ps, _)) \<Rightarrow> 2 * sum_list (map psz ps) + 1
          | Inr (Inr (_, ps, _)) \<Rightarrow> 2 * sum_list (map psz ps) + 1)")
  apply (auto dest: unwrap_eq_le split_extract_psz)
  done

subsection \<open>Node-creation predicate and structural equality of parsers\<close>

text \<open>
  \<^verbatim>\<open>creates_node\<close>. The type of a deferred parser comes from \<^verbatim>\<open>get_type\<close>, which
  belongs to \<^verbatim>\<open>langkit.parsers\<close> and is a parameter here. \<^verbatim>\<open>_booleanize\<close> is either
  \<^verbatim>\<open>None\<close> or an enum node class, so \<^verbatim>\<open>issubtype(p._booleanize, EnumNode)\<close> is
  \<open>b \<noteq> None\<close>.
\<close>

fun creates_node :: "(parser \<Rightarrow> node_type) \<Rightarrow> parser \<Rightarrow> bool" where
  "creates_node get_type (Or ps) = list_all (creates_node get_type) ps"
| "creates_node get_type (Defer n) = is_ast_node (get_type (Defer n))"
| "creates_node get_type (Opt p b e) = (creates_node get_type p \<or> b \<noteq> None)"
| "creates_node get_type (Predicate p) = creates_node get_type p"
| "creates_node get_type (Extract ps i) =
     (case ps of
        [node, term] \<Rightarrow>
          creates_node get_type node
          \<and> (case term of Token val mt \<Rightarrow> val = Termination | _ \<Rightarrow> False)
      | _ \<Rightarrow> False)"
| "creates_node get_type (Transform ps) = True"
| "creates_node get_type Skip = True"
| "creates_node get_type (List p sep) = True"
| "creates_node get_type p = False"

datatype parser_kind =
    KDefer | KDontSkip | KList | KNoBacktrack | KNull | KOpt | KOr | KPredicate | KSkip
  | KExtract | KRow | KToken | KTransform

fun type_of :: "parser \<Rightarrow> parser_kind" where
  "type_of (Defer n) = KDefer"
| "type_of (DontSkip p) = KDontSkip"
| "type_of (List p sep) = KList"
| "type_of NoBacktrack = KNoBacktrack"
| "type_of Null = KNull"
| "type_of (Opt p b e) = KOpt"
| "type_of (Or ps) = KOr"
| "type_of (Predicate p) = KPredicate"
| "type_of Skip = KSkip"
| "type_of (Extract ps i) = KExtract"
| "type_of (Row ps) = KRow"
| "type_of (Token val mt) = KToken"
| "type_of (Transform ps) = KTransform"

text \<open>
  Modelled from the spec: \<^verbatim>\<open>langkit.utils.is_same\<close> is not under src/. It tells whether
  all the values of a collection are the same; \<^verbatim>\<open>unparser_struct_eq\<close> only applies it to
  collections with at least one value.
\<close>

fun is_same :: "'a list \<Rightarrow> bool" where
  "is_same [] = False"
| "is_same (x # xs) = list_all (\<lambda>y. y = x) xs"

text \<open>Python's \<^verbatim>\<open>zip(*lists)\<close>: the columns of the lists, up to the shortest list.\<close>

definition zip_star :: "'a list list \<Rightarrow> 'a list list" where
  "zip_star xss =
     (case xss of
        [] \<Rightarrow> []
      | xs # rest \<Rightarrow>
          map (\<lambda>i. map (\<lambda>ys. ys ! i) xss)
            [0..<foldr (\<lambda>ys n. min (length ys) n) rest (length xs)])"

text \<open>\<^verbatim>\<open>all(...)\<close> over results that may raise: the first false or raising one decides.\<close>

fun all_results :: "(error + bool) list \<Rightarrow> error + bool" where
  "all_results [] = Inr True"
| "all_results (r # rs) = ebind r (\<lambda>b. if b then all_results rs else Inr False)"

fun token_vals :: "parser list \<Rightarrow> token_action list" where
  "token_vals [] = []"
| "token_vals (Token val mt # ps) = val # token_vals ps"
| "token_vals (p # ps) = token_vals ps"

fun extract_parsers :: "parser list \<Rightarrow> parser list" where
  "extract_parsers [] = []"
| "extract_parsers (Extract ps i # rest) = Row ps # extract_parsers rest"
| "extract_parsers (p # rest) = extract_parsers rest"

fun extract_indexes :: "parser list \<Rightarrow> nat list" where
  "extract_indexes [] = []"
| "extract_indexes (Extract ps i # rest) = i # extract_indexes rest"
| "extract_indexes (p # rest) = extract_indexes rest"

text \<open>\<^verbatim>\<open>p.parser if isinstance(p, Defer) else p\<close>: a deferred parser resolves to the rule
  of its name in the grammar.\<close>

fun resolve :: "(string \<Rightarrow> parser) \<Rightarrow> parser \<Rightarrow> parser" where
  "resolve rules (Defer n) = rules n"
| "resolve rules p = p"

lemma psz_child: "x \<in> set (children p) \<Longrightarrow> psz x < psz p"
proof (cases p)
  case (List q sep)
  assume "x \<in> set (children p)"
  then show ?thesis using List by (cases sep) auto
next
  case (Or ps)
  assume "x \<in> set (children p)"
  then show ?thesis using Or psz_member[of x ps] by simp
next
  case (Row ps)
  assume "x \<in> set (children p)"
  then show ?thesis using Row psz_member[of x ps] by simp
qed auto

lemma psz_prepared:
  "sum_list (map psz (map unwrap_dont_skip (filter P xs))) \<le> sum_list (map psz xs)"
proof (induction xs)
  case Nil then show ?case by simp
next
  case (Cons x xs)
  then show ?case using psz_unwrap[of x] by simp
qed

lemma foldr_min_le:
  "ys \<in> set rest \<Longrightarrow> foldr (\<lambda>ys n. min (length ys) n) rest k \<le> length ys"
  by (induction rest) (auto simp: min_def)

lemma foldr_min_le_init: "foldr (\<lambda>ys n. min (length ys) n) rest k \<le> k"
  by (induction rest) (auto simp: min_def)

lemma zip_star_column:
  assumes "c \<in> set (zip_star xss)"
  shows "list_all2 (\<lambda>x xs. x \<in> set xs) c xss"
proof (cases xss)
  case Nil
  then show ?thesis using assms by (simp add: zip_star_def)
next
  case (Cons xs rest)
  then obtain i where i: "i < foldr (\<lambda>ys n. min (length ys) n) rest (length xs)"
    and c: "c = map (\<lambda>ys. ys ! i) xss"
    using assms by (auto simp: zip_star_def)
  have "\<forall>ys \<in> set xss. i < length ys"
  proof
    fix ys assume "ys \<in> set xss"
    then consider "ys = xs" | "ys \<in> set rest" using Cons by auto
    then show "i < length ys"
    proof cases
      case 1 then show ?thesis using i foldr_min_le_init[of rest "length xs"] by simp
    next
      case 2 then show ?thesis using i foldr_min_le[of ys rest "length xs"] by simp
    qed
  qed
  then show ?thesis unfolding c by (simp add: list_all2_conv_all_nth)
qed

lemma psz_column:
  "list_all2 (\<lambda>x p. psz x < psz p) c ps \<Longrightarrow> ps \<noteq> [] \<Longrightarrow>
     sum_list (map psz c) < sum_list (map psz ps)"
proof (induction c ps rule: list_all2_induct)
  case Nil then show ?case by simp
next
  case (Cons x xs y ys)
  then show ?case by (cases ys) auto
qed

lemma psz_zip_star_children:
  assumes "c \<in> set (zip_star (map (\<lambda>p. filter Q (children p)) ps))" and "ps \<noteq> []"
  shows "sum_list (map psz c) < sum_list (map psz ps)"
proof -
  have "list_all2 (\<lambda>x xs. x \<in> set xs) c (map (\<lambda>p. filter Q (children p)) ps)"
    using assms(1) by (rule zip_star_column)
  then have "list_all2 (\<lambda>x p. psz x < psz p) c ps"
    by (auto simp: list_all2_conv_all_nth psz_child)
  then show ?thesis using assms(2) by (rule psz_column)
qed

lemma psz_extract_parsers_le:
  "sum_list (map psz (extract_parsers ps)) \<le> sum_list (map psz ps)"
  by (induction ps rule: extract_parsers.induct) auto

lemma psz_extract_parsers:
  "KExtract \<in> set (map type_of ps) \<Longrightarrow>
     sum_list (map psz (extract_parsers ps)) < sum_list (map psz ps)"
proof (induction ps rule: extract_parsers.induct)
  case 1 then show ?case by simp
next
  case (2 ps i rest)
  then show ?case using psz_extract_parsers_le[of rest] by simp
qed (auto)

function unparser_struct_eq ::
  "(parser \<Rightarrow> node_type) \<Rightarrow> (string \<Rightarrow> parser) \<Rightarrow> parser list \<Rightarrow> bool \<Rightarrow> error + bool" where
  "unparser_struct_eq get_type rules parsers0 toplevel =
     (let parsers = map unwrap_dont_skip (filter (\<lambda>p. p \<noteq> Null) parsers0) in
      if length parsers = 1 then Inr True
      else
        (case remdups (map type_of parsers) of
           [typ] \<Rightarrow>
             if typ \<in> {KRow, KTransform, KList, KOpt} then
               (let children_lists =
                      map (\<lambda>p. filter (\<lambda>subp. subp \<noteq> NoBacktrack) (children p)) parsers
                in if is_same (map length children_lists)
                   then all_results (map (\<lambda>c. unparser_struct_eq get_type rules c False)
                                       (zip_star children_lists))
                   else Inr False)
             else if typ = KToken then Inr (is_same (token_vals parsers))
             else if typ = KExtract then
               ebind (unparser_struct_eq get_type rules (extract_parsers parsers) True)
                 (\<lambda>r. if r then Inr (is_same (extract_indexes parsers)) else Inr False)
             else if typ \<in> {KDefer, KOr} then
               (if \<not> toplevel
                then Inr (list_all (creates_node get_type) (map (resolve rules) parsers))
                else Inr False)
             else Inl NotImplementedError
         | _ \<Rightarrow>
             (if \<not> toplevel
              then Inr (list_all (creates_node get_type) (map (resolve rules) parsers))
              else Inr False)))"
  by pat_completeness auto
termination
proof (relation "measure (\<lambda>(gt, rules, ps, tl). sum_list (map psz ps))", goal_cases)
  case 1 then show ?case by simp
next
  case (2 gt rs parsers0 toplevel parsers ty rest cls c)
  have ne: "parsers \<noteq> []" using 2 by auto
  have "sum_list (map psz c) < sum_list (map psz parsers)"
    using 2 ne psz_zip_star_children[of c "\<lambda>subp. subp \<noteq> NoBacktrack" parsers] by simp
  moreover have "sum_list (map psz parsers) \<le> sum_list (map psz parsers0)"
    using 2 psz_prepared[of "\<lambda>p. p \<noteq> Null" parsers0] by simp
  ultimately show ?case by simp
next
  case (3 gt rs parsers0 toplevel parsers ty rest)
  have "set (map type_of parsers) = {KExtract}"
    using 3 set_remdups[of "map type_of parsers"] by simp
  then have "sum_list (map psz (extract_parsers parsers)) < sum_list (map psz parsers)"
    using psz_extract_parsers[of parsers] by simp
  moreover have "sum_list (map psz parsers) \<le> sum_list (map psz parsers0)"
    using 3 psz_prepared[of "\<lambda>p. p \<noteq> Null" parsers0] by simp
  ultimately show ?case by simp
qed

subsection \<open>Combining node unparsers\<close>

fun same_unparser_type :: "node_unparser \<Rightarrow> node_unparser \<Rightarrow> bool" where
  "same_unparser_type (RegularNodeUnparser a) (RegularNodeUnparser b) = True"
| "same_unparser_type (ListNodeUnparser n s) (ListNodeUnparser m t) = True"
| "same_unparser_type (TokenNodeUnparser n) (TokenNodeUnparser m) = True"
| "same_unparser_type (NullNodeUnparser n) (NullNodeUnparser m) = True"
| "same_unparser_type a b = False"

fun combine_fields :: "(field_unparser \<times> field_unparser) list \<Rightarrow> error + field_unparser list" where
  "combine_fields [] = Inr []"
| "combine_fields ((self_fu, other_fu) # rest) =
     ebind (FieldUnparser_combine self_fu other_fu)
       (\<lambda>fu. ebind (combine_fields rest) (\<lambda>fus. Inr (fu # fus)))"

text \<open>The loop of \<^verbatim>\<open>RegularNodeUnparser._combine\<close> over the zipped inter-field token
  sequences; \<^verbatim>\<open>self.field_unparsers[i]\<close> raises when there is no field \<open>i\<close>.\<close>

fun check_inter_tokens ::
  "field_unparser list \<Rightarrow> nat \<Rightarrow> (token_sequence \<times> token_sequence) list \<Rightarrow> error + unit" where
  "check_inter_tokens fus i [] = Inr ()"
| "check_inter_tokens fus i ((self_inter, other_inter) # rest) =
     (if i < length fus
      then ebind (check_equivalence (''tokens after '' @ qualname (fu_field (fus ! i)))
                    self_inter other_inter)
             (\<lambda>_. check_inter_tokens fus (i + 1) rest)
      else Inl IndexError)"

definition RegularNodeUnparser_combine ::
  "regular_node_unparser \<Rightarrow> regular_node_unparser \<Rightarrow> error + node_unparser" where
  "RegularNodeUnparser_combine self other =
     (if rn_node self \<noteq> rn_node other then Inl AssertionError
      else if length (field_unparsers self) \<noteq> length (field_unparsers other)
        then Inl AssertionError
      else if length (inter_tokens self) \<noteq> length (inter_tokens other) then Inl AssertionError
      else ebind (check_equivalence (''prefix tokens for '' @ dsl_name (rn_node self))
                    (pre_tokens self) (pre_tokens other))
        (\<lambda>_. ebind (check_inter_tokens (field_unparsers self) 0
                       (zip (inter_tokens self) (inter_tokens other)))
          (\<lambda>_. ebind (combine_fields (zip (field_unparsers self) (field_unparsers other)))
            (\<lambda>fus. Inr (RegularNodeUnparser
                          ((RegularNodeUnparser_init (rn_node self))
                             \<lparr>pre_tokens := pre_tokens self,
                              post_tokens := post_tokens self,
                              inter_tokens := inter_tokens self,
                              field_unparsers := fus\<rparr>))))))"

text \<open>\<^verbatim>\<open>Unparser.combine\<close>: the assertion on the operand's class, then the \<^verbatim>\<open>_combine\<close> of
  the class; \<^verbatim>\<open>NullNodeUnparser\<close> does not override it.\<close>

fun combine :: "node_unparser \<Rightarrow> node_unparser \<Rightarrow> error + node_unparser" where
  "combine (RegularNodeUnparser a) (RegularNodeUnparser b) = RegularNodeUnparser_combine a b"
| "combine (ListNodeUnparser n s) (ListNodeUnparser m t) = ListNodeUnparser_combine n s m t"
| "combine (TokenNodeUnparser n) (TokenNodeUnparser m) =
     (if n \<noteq> m then Inl AssertionError else Inr (TokenNodeUnparser n))"
| "combine (NullNodeUnparser n) (NullNodeUnparser m) = Inl NotImplementedError"
| "combine a b = Inl AssertionError"

fun zip_fields_collect :: "(field_unparser \<times> token_sequence) list \<Rightarrow> token_sequence list" where
  "zip_fields_collect [] = []"
| "zip_fields_collect ((fu, inter_toks) # rest) =
     [fu_pre_tokens fu, fu_post_tokens fu, inter_toks] @ zip_fields_collect rest"

fun collect :: "node_unparser \<Rightarrow> error + token_sequence list" where
  "collect (RegularNodeUnparser r) =
     Inr ([pre_tokens r]
          @ zip_fields_collect (zip (field_unparsers r) ([] # inter_tokens r))
          @ [post_tokens r])"
| "collect (ListNodeUnparser n s) = Inr []"
| "collect (TokenNodeUnparser n) = Inr []"
| "collect (NullNodeUnparser n) = Inl NotImplementedError"

subsection \<open>The registry: Unparsers\<close>

text \<open>
  The \<^verbatim>\<open>Unparsers\<close> object with the attributes of other objects that it writes:
  \<^verbatim>\<open>context.generate_unparser\<close>, \<^verbatim>\<open>node.parser\<close> (\<open>canonical_parser\<close>),
  \<^verbatim>\<open>node.unparser\<close> (\<open>final_unparser\<close>) and the warnings handed to the diagnostics.
  The two \<^verbatim>\<open>defaultdict(list)\<close> are association lists in insertion order.
\<close>

record unparsers_state =
  generate_unparser :: bool
  nodes_to_rules :: "(node_type \<times> parser list) list"
  unparsers :: "(node_type \<times> node_unparser list) list"
  token_unparsers :: token_cache
  token_sequence_unparsers :: "token_sequence list"
  warnings :: "string list"
  canonical_parser :: "node_type \<rightharpoonup> parser"
  final_unparser :: "node_type \<rightharpoonup> node_unparser"

definition Unparsers_init :: "bool \<Rightarrow> unparsers_state" where
  "Unparsers_init requested =
     \<lparr>generate_unparser = requested, nodes_to_rules = [], unparsers = [],
      token_unparsers = Map.empty, token_sequence_unparsers = [], warnings = [],
      canonical_parser = Map.empty, final_unparser = Map.empty\<rparr>"

fun dd_append :: "('k \<times> 'v list) list \<Rightarrow> 'k \<Rightarrow> 'v \<Rightarrow> ('k \<times> 'v list) list" where
  "dd_append [] k v = [(k, [v])]"
| "dd_append ((k', vs) # rest) k v =
     (if k' = k then (k', vs @ [v]) # rest else (k', vs) # dd_append rest k v)"

fun dd_get :: "('k \<times> 'v list) list \<Rightarrow> 'k \<Rightarrow> 'v list" where
  "dd_get [] k = []"
| "dd_get ((k', vs) # rest) k = (if k' = k then vs else dd_get rest k)"

definition abort_unparser :: "string \<Rightarrow> unparsers_state \<Rightarrow> unparsers_state" where
  "abort_unparser message st =
     (let extra_info =
            (if generate_unparser st
             then newline @ ''For more information, enable the the unparser_eq trace.''
             else [])
      in st\<lparr>warnings := warnings st
                @ [message @ '' This prevents the generation of an automatic unparser.''
                   @ extra_info],
            generate_unparser := False\<rparr>)"

text \<open>The local function \<^verbatim>\<open>append\<close> of \<^verbatim>\<open>compute\<close>.\<close>

definition append_rule ::
  "(parser \<Rightarrow> node_type) \<Rightarrow> node_type \<Rightarrow> parser \<Rightarrow> unparsers_state \<Rightarrow> error + unparsers_state" where
  "append_rule get_type node parser st =
     (let st1 = st\<lparr>nodes_to_rules := dd_append (nodes_to_rules st) node parser\<rparr>
      in if generate_unparser st1
         then ebind (from_parser get_type node parser (token_unparsers st1))
                (\<lambda>(u, c). Inr (st1\<lparr>unparsers := dd_append (unparsers st1) node u,
                                    token_unparsers := c\<rparr>))
         else Inr st1)"

fun append_alternatives ::
  "(parser \<Rightarrow> node_type) \<Rightarrow> node_type list \<Rightarrow> parser \<Rightarrow> unparsers_state
     \<Rightarrow> error + unparsers_state" where
  "append_alternatives get_type [] p st = Inr st"
| "append_alternatives get_type (alt # alts) p st =
     ebind (append_rule get_type alt p st) (\<lambda>st'. append_alternatives get_type alts p st')"

text \<open>The whitelisted row of a top-level extraction: two sub-parsers, the second one the
  termination token.\<close>

fun node_then_termination :: "parser list \<Rightarrow> bool" where
  "node_then_termination [node, Token val mt] = (val = Termination)"
| "node_then_termination ps = False"

lemma psz_children: "sum_list (map psz (children p)) < psz p"
proof (cases p)
  case (List q sep)
  then show ?thesis by (cases sep) simp_all
qed simp_all

lemma psz_children2: "Suc (2 * sum_list (map psz (children p))) < 2 * psz p"
  using psz_children[of p] by simp

text \<open>The \<^verbatim>\<open>if\<close>/\<^verbatim>\<open>elif\<close> chain of \<^verbatim>\<open>compute_internal\<close>: what is recorded for the parser
  \<open>p\<close> itself, and the \<^verbatim>\<open>toplevel\<close> that its children are walked with.\<close>

definition compute_step ::
  "(parser \<Rightarrow> node_type) \<Rightarrow> parser \<Rightarrow> bool \<Rightarrow> unparsers_state
     \<Rightarrow> error + (unparsers_state \<times> bool)" where
  "compute_step get_type p toplevel st =
     (case p of
        Skip \<Rightarrow> Inr (st, toplevel)
      | Opt q b e \<Rightarrow>
          (case b of
             Some bz \<Rightarrow>
               ebind (append_alternatives get_type (alternatives_types bz) p st)
                 (\<lambda>st'. Inr (st', False))
           | None \<Rightarrow> Inr (st, toplevel))
      | List q sep \<Rightarrow> ebind (append_rule get_type (get_type p) p st) (\<lambda>st'. Inr (st', False))
      | Transform ps \<Rightarrow>
          ebind (append_rule get_type (get_type p) p st) (\<lambda>st'. Inr (st', False))
      | Null \<Rightarrow> Inr (st, toplevel)
      | Or ps \<Rightarrow> Inr (st, toplevel)
      | Extract ps i \<Rightarrow>
          ebind (check_source_language
                   (PyBool (\<not> generate_unparser st \<or> \<not> toplevel \<or> node_then_termination ps))
                   (PyStr ''Top-level information loss prevents unparsers generation''))
            (\<lambda>_. Inr (st, toplevel))
      | _ \<Rightarrow> Inr (st, toplevel))"

function compute_internal ::
    "(parser \<Rightarrow> node_type) \<Rightarrow> parser \<Rightarrow> bool \<Rightarrow> unparsers_state \<Rightarrow> error + unparsers_state"
  and compute_children ::
    "(parser \<Rightarrow> node_type) \<Rightarrow> parser list \<Rightarrow> bool \<Rightarrow> unparsers_state
       \<Rightarrow> error + unparsers_state"
where
  "compute_internal get_type p toplevel st =
     ebind (compute_step get_type p toplevel st)
       (\<lambda>(st', toplevel'). compute_children get_type (children p) toplevel' st')"
| "compute_children get_type [] toplevel st = Inr st"
| "compute_children get_type (c # cs) toplevel st =
     ebind (compute_internal get_type c toplevel st)
       (\<lambda>st'. compute_children get_type cs toplevel st')"
  by pat_completeness auto
termination
  by (relation "measure (\<lambda>x. case x of
            Inl (_, p, _, _) \<Rightarrow> 2 * psz p
          | Inr (_, ps, _, _) \<Rightarrow> 2 * sum_list (map psz ps) + 1)")
     (auto simp: psz_children2)

definition compute ::
  "(parser \<Rightarrow> node_type) \<Rightarrow> rule \<Rightarrow> unparsers_state \<Rightarrow> error + unparsers_state" where
  "compute get_type parser st =
     (if is_dont_skip_parser parser then Inr st
      else ebind (compute_internal get_type (rule_parser parser) True st)
             (\<lambda>st'. if \<not> creates_node get_type (rule_parser parser)
                    then Inr (abort_unparser
                                ([CHR 0x27] @ rule_name parser @ [CHR 0x27]
                                 @ '' toplevel rule loses information.'') st')
                    else Inr st'))"

subsection \<open>check_nodes_to_rules and finalize\<close>

fun has_null :: "parser \<Rightarrow> bool" where
  "has_null Null = True"
| "has_null (DontSkip p) = has_null p"
| "has_null (List p sep) = (has_null p \<or> (case sep of None \<Rightarrow> False | Some s \<Rightarrow> has_null s))"
| "has_null (Opt p b e) = has_null p"
| "has_null (Or ps) = list_ex has_null ps"
| "has_null (Predicate p) = has_null p"
| "has_null (Extract ps i) = list_ex has_null ps"
| "has_null (Row ps) = list_ex has_null ps"
| "has_null (Transform ps) = list_ex has_null ps"
| "has_null p = False"

definition find_canonical_parser :: "parser list \<Rightarrow> error + parser" where
  "find_canonical_parser parsers =
     (case filter (\<lambda>p. \<not> has_null p) parsers of
        p # no_nulls \<Rightarrow> Inr p
      | [] \<Rightarrow> (case filter has_null parsers of p # nulls \<Rightarrow> Inr p | [] \<Rightarrow> Inl IndexError))"

definition warn_unused_node_type :: "node_type \<Rightarrow> unparsers_state \<Rightarrow> unparsers_state" where
  "warn_unused_node_type node_type st =
     (if node_type \<notin> set (map fst (nodes_to_rules st))
         \<and> \<not> abstract node_type \<and> \<not> synthetic node_type \<and> \<not> is_base_list_type node_type
      then st\<lparr>warnings := warnings st
                 @ [type_name node_type
                    @ '' has no parser, and is marked neither abstract nor synthetic'']\<rparr>
      else st)"

fun check_parsers ::
  "(parser \<Rightarrow> node_type) \<Rightarrow> (string \<Rightarrow> parser) \<Rightarrow> (node_type \<times> parser list) list
     \<Rightarrow> unparsers_state \<Rightarrow> error + unparsers_state" where
  "check_parsers get_type rules [] st = Inr st"
| "check_parsers get_type rules ((node, parsers) # rest) st =
     ebind (unparser_struct_eq get_type rules parsers True)
       (\<lambda>eq. if \<not> eq
             then Inr (abort_unparser
                         (''Node '' @ type_name node
                          @ '' is parsed in different incompatible ways.'') st)
             else ebind (find_canonical_parser parsers)
                    (\<lambda>p. check_parsers get_type rules rest
                           (st\<lparr>canonical_parser := (canonical_parser st)(node \<mapsto> p)\<rparr>)))"

definition check_nodes_to_rules ::
  "(parser \<Rightarrow> node_type) \<Rightarrow> (string \<Rightarrow> parser) \<Rightarrow> node_type list \<Rightarrow> unparsers_state
     \<Rightarrow> error + unparsers_state" where
  "check_nodes_to_rules get_type rules astnode_types st =
     (let st1 = fold warn_unused_node_type astnode_types st
      in if \<not> generate_unparser st1 then Inr st1
         else check_parsers get_type rules (nodes_to_rules st1) st1)"

fun combine_all :: "node_unparser \<Rightarrow> node_unparser list \<Rightarrow> error + node_unparser" where
  "combine_all combined [] = Inr combined"
| "combine_all combined (unparser # rest) =
     ebind (combine combined unparser)
       (\<lambda>combined'. if same_unparser_type unparser combined'
                    then combine_all combined' rest
                    else Inl AssertionError)"

fun is_null_unparser :: "node_unparser \<Rightarrow> bool" where
  "is_null_unparser (NullNodeUnparser n) = True"
| "is_null_unparser u = False"

definition finalize_node :: "node_type \<Rightarrow> unparsers_state \<Rightarrow> error + unparsers_state" where
  "finalize_node node st =
     (case dd_get (unparsers st) node of
        [] \<Rightarrow> Inr st
      | u # us \<Rightarrow>
          (case filter (\<lambda>u. \<not> is_null_unparser u) (u # us) of
             [] \<Rightarrow> Inl AssertionError
           | first # rest \<Rightarrow>
               ebind (combine_all first rest)
                 (\<lambda>combined. ebind (collect combined)
                    (\<lambda>seqs. Inr (st\<lparr>final_unparser := (final_unparser st)(node \<mapsto> combined),
                                     token_sequence_unparsers :=
                                       token_sequence_unparsers st @ seqs\<rparr>)))))"

fun finalize :: "node_type list \<Rightarrow> unparsers_state \<Rightarrow> error + unparsers_state" where
  "finalize [] st = Inr st"
| "finalize (node # nodes) st = ebind (finalize_node node st) (\<lambda>st'. finalize nodes st')"

subsection \<open>What the grammar walk records and where it loses information\<close>

text \<open>The (node type, parser) pairs that \<^verbatim>\<open>compute_internal\<close> hands to \<^verbatim>\<open>append\<close>, in
  the order of the walk.\<close>

fun recorded_rules :: "(parser \<Rightarrow> node_type) \<Rightarrow> parser \<Rightarrow> (node_type \<times> parser) list" where
  "recorded_rules get_type (Opt q b e) =
     (case b of None \<Rightarrow> [] | Some bz \<Rightarrow> map (\<lambda>n. (n, Opt q b e)) (alternatives_types bz))
     @ recorded_rules get_type q"
| "recorded_rules get_type (List q sep) =
     (get_type (List q sep), List q sep) # recorded_rules get_type q
     @ (case sep of None \<Rightarrow> [] | Some s \<Rightarrow> recorded_rules get_type s)"
| "recorded_rules get_type (Transform ps) =
     (get_type (Transform ps), Transform ps) # concat (map (recorded_rules get_type) ps)"
| "recorded_rules get_type (DontSkip q) = recorded_rules get_type q"
| "recorded_rules get_type (Or ps) = concat (map (recorded_rules get_type) ps)"
| "recorded_rules get_type (Predicate q) = recorded_rules get_type q"
| "recorded_rules get_type (Extract ps i) = concat (map (recorded_rules get_type) ps)"
| "recorded_rules get_type (Row ps) = concat (map (recorded_rules get_type) ps)"
| "recorded_rules get_type p = []"

fun record_all ::
  "(node_type \<times> parser list) list \<Rightarrow> (node_type \<times> parser) list
     \<Rightarrow> (node_type \<times> parser list) list" where
  "record_all d [] = d"
| "record_all d ((node, p) # rest) = record_all (dd_append d node p) rest"

text \<open>An extraction whose row is not the whitelisted one, reached by the walk while
  \<^verbatim>\<open>toplevel\<close> is still true (no node-creating parser above it).\<close>

fun toplevel_loss :: "parser \<Rightarrow> bool" where
  "toplevel_loss (Extract ps i) = (\<not> node_then_termination ps \<or> list_ex toplevel_loss ps)"
| "toplevel_loss (Opt q b e) = (b = None \<and> toplevel_loss q)"
| "toplevel_loss (DontSkip q) = toplevel_loss q"
| "toplevel_loss (Or ps) = list_ex toplevel_loss ps"
| "toplevel_loss (Predicate q) = toplevel_loss q"
| "toplevel_loss (Row ps) = list_ex toplevel_loss ps"
| "toplevel_loss p = False"

text \<open>The pairs recorded for the parser itself, before its children are walked.\<close>

definition step_rules :: "(parser \<Rightarrow> node_type) \<Rightarrow> parser \<Rightarrow> (node_type \<times> parser) list" where
  "step_rules gt p =
     (case p of
        Opt q b e \<Rightarrow> (case b of None \<Rightarrow> [] | Some bz \<Rightarrow> map (\<lambda>n. (n, p)) (alternatives_types bz))
      | List q sep \<Rightarrow> [(gt p, p)]
      | Transform ps \<Rightarrow> [(gt p, p)]
      | _ \<Rightarrow> [])"

subsection \<open>Well-formed inputs of the derivation\<close>

text \<open>A token parser that passes the assertion of the \<^verbatim>\<open>TokenUnparser\<close> constructor, the
  unparser built from it, and a cache that holds under every key the unparser built from
  that key (the empty cache does, and \<^verbatim>\<open>TokenUnparser.from_parser\<close> keeps it so).\<close>

definition token_parser_ok :: "token_action \<times> string \<Rightarrow> bool" where
  "token_parser_ok t = ((matcher (fst t) = None) = (snd t \<noteq> []))"

definition unparser_of :: "token_action \<times> string \<Rightarrow> token_unparser" where
  "unparser_of t = \<lparr>token = fst t, match_text = (if snd t \<noteq> [] then Some (snd t) else None)\<rparr>"

definition token_parser :: "token_action \<times> string \<Rightarrow> parser" where
  "token_parser t = Token (fst t) (snd t)"

definition cache_ok :: "token_cache \<Rightarrow> bool" where
  "cache_ok c = (\<forall>val m r. c (val, m) = Some r \<longrightarrow> r = \<lparr>token = val, match_text = m\<rparr>)"

text \<open>The field parsers that go directly to node creation
  (\<^verbatim>\<open>isinstance(parser, (Defer, List, Null, _Transform))\<close> after unwrapping).\<close>

definition direct_node_parser :: "parser \<Rightarrow> bool" where
  "direct_node_parser p =
     (case unwrap_dont_skip p of
        Defer n \<Rightarrow> True | List q sep \<Rightarrow> True | Null \<Rightarrow> True | Transform ps \<Rightarrow> True
      | _ \<Rightarrow> False)"

text \<open>Extractions nested in one another, outermost first: each layer is the run of token
  parsers before the extracted element and the run after it.\<close>

fun nested_extract ::
  "((token_action \<times> string) list \<times> (token_action \<times> string) list) list \<Rightarrow> parser \<Rightarrow> parser" where
  "nested_extract [] inner = inner"
| "nested_extract ((pre, post) # layers) inner =
     Extract (map token_parser pre @ [nested_extract layers inner] @ map token_parser post)
       (length pre)"

subsection \<open>Example grammar pieces\<close>

text \<open>Concrete token kinds, node types and parsers on which the properties below are
  exercised.\<close>

definition tok_lpar :: token_action where
  "tok_lpar = \<lparr>tok_name = ''LPar'', matcher = Some ''(''\<rparr>"

definition tok_rpar :: token_action where
  "tok_rpar = \<lparr>tok_name = ''RPar'', matcher = Some '')''\<rparr>"

definition tok_comma :: token_action where
  "tok_comma = \<lparr>tok_name = ''Comma'', matcher = Some '',''\<rparr>"

definition tok_semicolon :: token_action where
  "tok_semicolon = \<lparr>tok_name = ''Semicolon'', matcher = Some '';''\<rparr>"

definition tok_identifier :: token_action where
  "tok_identifier = \<lparr>tok_name = ''Identifier'', matcher = None\<rparr>"

definition example_field :: field where
  "example_field = \<lparr>qualname = ''Node.f_item''\<rparr>"

definition example_node :: node_type where
  "example_node = \<lparr>dsl_name = ''Node'', type_name = ''Node'', abstract = False,
     synthetic = False, is_token_node = False, is_ast_node = True,
     is_base_list_type = False, parse_fields = [example_field]\<rparr>"

definition list_node :: node_type where
  "list_node = \<lparr>dsl_name = ''Node.list'', type_name = ''NodeList'', abstract = False,
     synthetic = False, is_token_node = False, is_ast_node = True,
     is_base_list_type = False, parse_fields = []\<rparr>"

lemmas example_defs =
  tok_lpar_def tok_rpar_def tok_comma_def tok_semicolon_def tok_identifier_def
  example_field_def example_node_def list_node_def

definition example_get_type :: "parser \<Rightarrow> node_type" where
  "example_get_type p = (case p of List q sep \<Rightarrow> list_node | _ \<Rightarrow> example_node)"

definition example_rules :: "string \<Rightarrow> parser" where
  "example_rules n = Transform [Token tok_lpar [], Defer n, Token tok_rpar []]"

text \<open>The rule \<^verbatim>\<open>Node <- sequence("(", field, ")")\<close> and a rule whose root extracts the
  middle element of that row.\<close>

definition paren_parser :: parser where
  "paren_parser = Transform [Token tok_lpar [], Defer ''item'', Token tok_rpar []]"

definition paren_rule :: rule where
  "paren_rule = \<lparr>rule_name = ''paren_rule'', is_dont_skip_parser = False,
     rule_parser = paren_parser\<rparr>"

definition lossy_rule :: rule where
  "lossy_rule = \<lparr>rule_name = ''lossy_rule'', is_dont_skip_parser = False,
     rule_parser = Extract [Token tok_lpar [], Defer ''item'', Token tok_rpar []] 1\<rparr>"

section \<open>Verified properties\<close>

subsection \<open>Token equivalence and sequence comparison\<close>

lemma init_valid: "TokenUnparser_init t m = Inr a \<Longrightarrow> valid_token a"
  by (auto simp: TokenUnparser_init_def valid_token_def split: if_splits)

lemma valid_dumps: "valid_token a \<Longrightarrow> \<exists>s. TokenUnparser_dumps a = Inr s"
  by (auto simp: valid_token_def TokenUnparser_dumps_def truthy_text_def split: option.splits list.splits)

lemma valid_equivalent:
  "valid_token a \<Longrightarrow> valid_token b \<Longrightarrow> \<exists>r. equivalent (Some a) (Some b) = Inr r"
  using valid_dumps[of a] valid_dumps[of b] by auto

lemma dumps_each_valid: "list_all valid_token ts \<Longrightarrow> \<exists>ds. dumps_each ts = Inr ds"
proof (induction ts)
  case Nil then show ?case by simp
next
  case (Cons t ts)
  then obtain d ds where "TokenUnparser_dumps t = Inr d" "dumps_each ts = Inr ds"
    using valid_dumps[of t] by auto
  then show ?case by simp
qed

lemma seq_dumps_valid: "list_all valid_token ts \<Longrightarrow> \<exists>d. TokenSequenceUnparser_dumps ts = Inr d"
  using dumps_each_valid[of ts] by (auto simp: TokenSequenceUnparser_dumps_def)

lemma all_equivalent_valid:
  "list_all valid_token xs \<Longrightarrow> list_all valid_token ys \<Longrightarrow> length xs = length ys \<Longrightarrow>
   all_equivalent (zip xs ys) = Inr (list_all2 (\<lambda>a b. equivalent (Some a) (Some b) = Inr True) xs ys)"
proof (induction xs arbitrary: ys)
  case Nil then show ?case by simp
next
  case (Cons x xs)
  then obtain y ys' where ys: "ys = y # ys'" by (cases ys) auto
  with Cons.prems obtain r where r: "equivalent (Some x) (Some y) = Inr r"
    using valid_equivalent[of x y] by auto
  show ?case using Cons.IH[of ys'] Cons.prems r unfolding ys by simp
qed

lemma check_equivalence_valid:
  assumes "list_all valid_token xs" "list_all valid_token ys"
  shows "(list_all2 (\<lambda>a b. equivalent (Some a) (Some b) = Inr True) xs ys \<longrightarrow>
            check_equivalence n xs ys = Inr ())
       \<and> (\<not> list_all2 (\<lambda>a b. equivalent (Some a) (Some b) = Inr True) xs ys \<longrightarrow>
            (\<exists>m. check_equivalence n xs ys = Inl (Fatal (PyStr m))))"
proof -
  obtain d1 d2 where d: "TokenSequenceUnparser_dumps xs = Inr d1" "TokenSequenceUnparser_dumps ys = Inr d2"
    using seq_dumps_valid assms by blast
  show ?thesis
  proof (cases "length xs = length ys")
    case True
    then show ?thesis using all_equivalent_valid[OF assms True] d
      by (simp add: check_equivalence_def check_source_language_def)
  next
    case False
    then have "\<not> list_all2 (\<lambda>a b. equivalent (Some a) (Some b) = Inr True) xs ys"
      by (auto dest: list_all2_lengthD)
    then show ?thesis using False d
      by (simp add: check_equivalence_def check_source_language_def)
  qed
qed

lemma equivalent_refl: "valid_token a \<Longrightarrow> equivalent (Some a) (Some a) = Inr True"
  using valid_dumps[of a] by auto

lemma list_all2_equivalent_refl:
  "list_all valid_token xs \<Longrightarrow> list_all2 (\<lambda>a b. equivalent (Some a) (Some b) = Inr True) xs xs"
  by (induction xs) (simp_all add: equivalent_refl del: equivalent.simps)

subsection \<open>Claims about token equivalence, list separators and field merging\<close>

text \<open>
  C10. \<^verbatim>\<open>TokenUnparser.equivalent\<close> treats an absent token as equivalent only to an
  absent token: it is true on (None, None) and false on (None, t) and (t, None) for
  every token unparser t. For two token unparsers that render (every unparser accepted by
  the constructor's assertion does), equivalence is equality of the rendered texts, so
  two unparsers with different (kind, match-text) keys can be equivalent.
\<close>

theorem equivalent_absent_and_rendered:
  "equivalent None None = Inr True
   \<and> equivalent None (Some t) = Inr False
   \<and> equivalent (Some t) None = Inr False
   \<and> (TokenUnparser_dumps a = Inr x \<and> TokenUnparser_dumps b = Inr y \<longrightarrow>
        equivalent (Some a) (Some b) = Inr (x = y))
   \<and> (valid_token a \<and> valid_token b \<longrightarrow>
        (\<exists>x y. TokenUnparser_dumps a = Inr x \<and> TokenUnparser_dumps b = Inr y))
   \<and> (\<exists>c d. valid_token c \<and> valid_token d
         \<and> (token c, match_text c) \<noteq> (token d, match_text d)
         \<and> equivalent (Some c) (Some d) = Inr True)"
proof -
  let ?c = "\<lparr>token = tok_lpar, match_text = None\<rparr>"
  let ?d = "\<lparr>token = tok_identifier, match_text = Some ''(''\<rparr>"
  have "valid_token ?c \<and> valid_token ?d \<and> (token ?c, match_text ?c) \<noteq> (token ?d, match_text ?d)
        \<and> equivalent (Some ?c) (Some ?d) = Inr True"
    by (simp add: valid_token_def truthy_text_def TokenUnparser_dumps_def example_defs)
  then have ex: "\<exists>c d. valid_token c \<and> valid_token d
         \<and> (token c, match_text c) \<noteq> (token d, match_text d)
         \<and> equivalent (Some c) (Some d) = Inr True"
    by blast
  have v: "valid_token a \<and> valid_token b \<longrightarrow>
        (\<exists>x y. TokenUnparser_dumps a = Inr x \<and> TokenUnparser_dumps b = Inr y)"
    using valid_dumps[of a] valid_dumps[of b] by blast
  show ?thesis using ex v by simp
qed

theorem equivalent_absent_and_rendered_witness:
  "TokenUnparser_dumps \<lparr>token = tok_comma, match_text = None\<rparr> = Inr '',''
   \<and> TokenUnparser_dumps \<lparr>token = tok_identifier, match_text = Some '';''\<rparr> = Inr '';''
   \<and> valid_token \<lparr>token = tok_comma, match_text = None\<rparr>
   \<and> valid_token \<lparr>token = tok_identifier, match_text = Some '';''\<rparr>
   \<and> equivalent (Some \<lparr>token = tok_comma, match_text = None\<rparr>)
        (Some \<lparr>token = tok_identifier, match_text = Some '';''\<rparr>)
      = Inr False"
proof -
  let ?a = "\<lparr>token = tok_comma, match_text = None\<rparr>"
  let ?b = "\<lparr>token = tok_identifier, match_text = Some '';''\<rparr>"
  have d: "TokenUnparser_dumps ?a = Inr '',''" "TokenUnparser_dumps ?b = Inr '';''"
    by (simp_all add: TokenUnparser_dumps_def example_defs)
  have v: "valid_token ?a" "valid_token ?b"
    by (simp_all add: valid_token_def truthy_text_def example_defs)
  from equivalent_absent_and_rendered[of ?a ?a "'',''" ?b "'';''"] d
  have "equivalent (Some ?a) (Some ?b) = Inr ('','' = '';'')" by blast
  then show ?thesis using d v by simp
qed

text \<open>
  C1. \<^verbatim>\<open>ListNodeUnparser._combine\<close> passes the formatted message as the predicate of
  \<^verbatim>\<open>check_source_language\<close> and the outcome of the equivalence test as its message. The
  message is never the empty string, so the check never fails: two list unparsers of one
  node whose separators are not equivalent ("," against ";", and "," against no
  separator) combine to the first operand without any diagnostic.
\<close>

theorem ListNodeUnparser_combine_accepts_different_separators:
  "equivalent (Some \<lparr>token = tok_comma, match_text = None\<rparr>)
     (Some \<lparr>token = tok_semicolon, match_text = None\<rparr>) = Inr False
   \<and> equivalent (Some \<lparr>token = tok_comma, match_text = None\<rparr>) None = Inr False
   \<and> ListNodeUnparser_combine
       list_node (Some \<lparr>token = tok_comma, match_text = None\<rparr>)
       list_node (Some \<lparr>token = tok_semicolon, match_text = None\<rparr>)
     = Inr (ListNodeUnparser list_node (Some \<lparr>token = tok_comma, match_text = None\<rparr>))
   \<and> ListNodeUnparser_combine
       list_node (Some \<lparr>token = tok_comma, match_text = None\<rparr>)
       list_node None
     = Inr (ListNodeUnparser list_node (Some \<lparr>token = tok_comma, match_text = None\<rparr>))"
  by (simp add: ListNodeUnparser_combine_def TokenUnparser_dumps_def
        check_source_language_def example_defs)

text \<open>
  C8. \<^verbatim>\<open>FieldUnparser._combine\<close> on two occurrences of the same (node, field) whose
  tokens satisfy the constructor's assertion: when the first operand is always absent the
  result is the second operand, when only the second is always absent the result is the
  first, and an always-absent operand without tokens (the only kind derivation produces)
  leaves the other operand as the result. When neither is always absent the merge returns
  the first operand exactly when the prefix and the postfix token sequences are pairwise
  equivalent, and raises the fatal diagnostic otherwise. Merging an operand with itself
  returns it.
\<close>

theorem FieldUnparser_combine_merge:
  assumes "fu_node y = fu_node x" and "fu_field y = fu_field x"
    and "tokens_valid x" and "tokens_valid y"
  shows "(always_absent x \<longrightarrow> FieldUnparser_combine x y = Inr y)
       \<and> (always_absent y \<and> \<not> always_absent x \<longrightarrow> FieldUnparser_combine x y = Inr x)
       \<and> (always_absent y \<and> absent_has_no_tokens x \<and> absent_has_no_tokens y \<longrightarrow>
            FieldUnparser_combine x y = Inr x)
       \<and> (\<not> always_absent x \<and> \<not> always_absent y \<longrightarrow>
            (FieldUnparser_combine x y = Inr x) =
              (sequences_equivalent (fu_pre_tokens x) (fu_pre_tokens y)
               \<and> sequences_equivalent (fu_post_tokens x) (fu_post_tokens y))
          \<and> (\<forall>r. FieldUnparser_combine x y = Inr r \<longrightarrow> r = x)
          \<and> ((\<exists>m. FieldUnparser_combine x y = Inl (Fatal (PyStr m))) =
              (\<not> (sequences_equivalent (fu_pre_tokens x) (fu_pre_tokens y)
               \<and> sequences_equivalent (fu_post_tokens x) (fu_post_tokens y)))))
       \<and> FieldUnparser_combine x x = Inr x"
proof -
  have pre: "list_all valid_token (fu_pre_tokens x)" "list_all valid_token (fu_pre_tokens y)"
    and post: "list_all valid_token (fu_post_tokens x)" "list_all valid_token (fu_post_tokens y)"
    using assms(3,4) by (auto simp: tokens_valid_def)
  note cp = check_equivalence_valid[OF pre, of "''prefix tokens for '' @ qualname (fu_field x)", folded sequences_equivalent_def]
  note cq = check_equivalence_valid[OF post, of "''postfix tokens for '' @ qualname (fu_field x)", folded sequences_equivalent_def]
  have 1: "always_absent x \<longrightarrow> FieldUnparser_combine x y = Inr y"
    using assms(1,2) by (simp add: FieldUnparser_combine_def)
  have 2: "always_absent y \<and> \<not> always_absent x \<longrightarrow> FieldUnparser_combine x y = Inr x"
    using assms(1,2) by (simp add: FieldUnparser_combine_def)
  have 3: "always_absent y \<and> absent_has_no_tokens x \<and> absent_has_no_tokens y \<longrightarrow>
            FieldUnparser_combine x y = Inr x"
  proof (cases "always_absent x")
    case True
    show ?thesis
    proof (intro impI)
      assume h: "always_absent y \<and> absent_has_no_tokens x \<and> absent_has_no_tokens y"
      with True assms(1,2) have "y = x" by (simp add: absent_has_no_tokens_def)
      then show "FieldUnparser_combine x y = Inr x" using 1 True by simp
    qed
  next
    case False
    then show ?thesis using 2 by simp
  qed
  have 4: "\<not> always_absent x \<and> \<not> always_absent y \<longrightarrow>
            (FieldUnparser_combine x y = Inr x) =
              (sequences_equivalent (fu_pre_tokens x) (fu_pre_tokens y)
               \<and> sequences_equivalent (fu_post_tokens x) (fu_post_tokens y))
          \<and> (\<forall>r. FieldUnparser_combine x y = Inr r \<longrightarrow> r = x)
          \<and> ((\<exists>m. FieldUnparser_combine x y = Inl (Fatal (PyStr m))) =
              (\<not> (sequences_equivalent (fu_pre_tokens x) (fu_pre_tokens y)
               \<and> sequences_equivalent (fu_post_tokens x) (fu_post_tokens y))))"
  proof (intro impI)
    assume na: "\<not> always_absent x \<and> \<not> always_absent y"
    consider (a) "sequences_equivalent (fu_pre_tokens x) (fu_pre_tokens y)" "sequences_equivalent (fu_post_tokens x) (fu_post_tokens y)"
      | (b) "\<not> sequences_equivalent (fu_pre_tokens x) (fu_pre_tokens y)"
      | (c) "sequences_equivalent (fu_pre_tokens x) (fu_pre_tokens y)" "\<not> sequences_equivalent (fu_post_tokens x) (fu_post_tokens y)"
      by blast
    then show "(FieldUnparser_combine x y = Inr x) =
              (sequences_equivalent (fu_pre_tokens x) (fu_pre_tokens y)
               \<and> sequences_equivalent (fu_post_tokens x) (fu_post_tokens y))
          \<and> (\<forall>r. FieldUnparser_combine x y = Inr r \<longrightarrow> r = x)
          \<and> ((\<exists>m. FieldUnparser_combine x y = Inl (Fatal (PyStr m))) =
              (\<not> (sequences_equivalent (fu_pre_tokens x) (fu_pre_tokens y)
               \<and> sequences_equivalent (fu_post_tokens x) (fu_post_tokens y))))"
    proof cases
      case a
      then show ?thesis using na assms(1,2) cp cq by (simp add: FieldUnparser_combine_def)
    next
      case b
      then obtain m where "check_equivalence (''prefix tokens for '' @ qualname (fu_field x)) (fu_pre_tokens x) (fu_pre_tokens y) = Inl (Fatal (PyStr m))"
        using cp by blast
      then show ?thesis using b na assms(1,2) by (simp add: FieldUnparser_combine_def)
    next
      case c
      then obtain m where "check_equivalence (''postfix tokens for '' @ qualname (fu_field x)) (fu_post_tokens x) (fu_post_tokens y) = Inl (Fatal (PyStr m))"
        using cq by blast
      then show ?thesis using c na assms(1,2) cp by (simp add: FieldUnparser_combine_def)
    qed
  qed
  have 5: "FieldUnparser_combine x x = Inr x"
  proof (cases "always_absent x")
    case True then show ?thesis by (simp add: FieldUnparser_combine_def)
  next
    case False
    have "check_equivalence (''prefix tokens for '' @ qualname (fu_field x)) (fu_pre_tokens x) (fu_pre_tokens x) = Inr ()"
      "check_equivalence (''postfix tokens for '' @ qualname (fu_field x)) (fu_post_tokens x) (fu_post_tokens x) = Inr ()"
      using check_equivalence_valid[OF pre(1) pre(1)] check_equivalence_valid[OF post(1) post(1)]
        list_all2_equivalent_refl pre(1) post(1) by blast+
    then show ?thesis using False by (simp add: FieldUnparser_combine_def)
  qed
  from 1 2 3 4 5 show ?thesis by blast
qed

theorem FieldUnparser_combine_merge_witness:
  "FieldUnparser_combine
     \<lparr>fu_node = example_node, fu_field = example_field, always_absent = False,
      fu_pre_tokens = [\<lparr>token = tok_lpar, match_text = None\<rparr>],
      fu_post_tokens = [\<lparr>token = tok_rpar, match_text = None\<rparr>]\<rparr>
     (FieldUnparser_init example_node example_field)
   = Inr \<lparr>fu_node = example_node, fu_field = example_field, always_absent = False,
      fu_pre_tokens = [\<lparr>token = tok_lpar, match_text = None\<rparr>],
      fu_post_tokens = [\<lparr>token = tok_rpar, match_text = None\<rparr>]\<rparr>
   \<and> FieldUnparser_combine
     \<lparr>fu_node = example_node, fu_field = example_field, always_absent = False,
      fu_pre_tokens = [\<lparr>token = tok_lpar, match_text = None\<rparr>],
      fu_post_tokens = [\<lparr>token = tok_rpar, match_text = None\<rparr>]\<rparr>
     \<lparr>fu_node = example_node, fu_field = example_field, always_absent = False,
      fu_pre_tokens = [\<lparr>token = tok_identifier, match_text = Some ''(''\<rparr>],
      fu_post_tokens = [\<lparr>token = tok_rpar, match_text = None\<rparr>]\<rparr>
   = Inr \<lparr>fu_node = example_node, fu_field = example_field, always_absent = False,
      fu_pre_tokens = [\<lparr>token = tok_lpar, match_text = None\<rparr>],
      fu_post_tokens = [\<lparr>token = tok_rpar, match_text = None\<rparr>]\<rparr>"
proof -
  let ?x = "\<lparr>fu_node = example_node, fu_field = example_field, always_absent = False,
      fu_pre_tokens = [\<lparr>token = tok_lpar, match_text = None\<rparr>],
      fu_post_tokens = [\<lparr>token = tok_rpar, match_text = None\<rparr>]\<rparr>"
  let ?y = "\<lparr>fu_node = example_node, fu_field = example_field, always_absent = False,
      fu_pre_tokens = [\<lparr>token = tok_identifier, match_text = Some ''(''\<rparr>],
      fu_post_tokens = [\<lparr>token = tok_rpar, match_text = None\<rparr>]\<rparr>"
  let ?z = "FieldUnparser_init example_node example_field"
  have vx: "tokens_valid ?x" and vy: "tokens_valid ?y" and vz: "tokens_valid ?z"
    by (simp_all add: tokens_valid_def valid_token_def truthy_text_def FieldUnparser_init_def
          example_defs)
  have z: "fu_node ?z = fu_node ?x" "fu_field ?z = fu_field ?x" "always_absent ?z"
    "\<not> always_absent ?x"
    by (simp_all add: FieldUnparser_init_def)
  have y: "fu_node ?y = fu_node ?x" "fu_field ?y = fu_field ?x" "\<not> always_absent ?y"
    by simp_all
  have eqv: "sequences_equivalent (fu_pre_tokens ?x) (fu_pre_tokens ?y)"
    "sequences_equivalent (fu_post_tokens ?x) (fu_post_tokens ?y)"
    by (simp_all add: sequences_equivalent_def TokenUnparser_dumps_def example_defs)
  have 1: "FieldUnparser_combine ?x ?z = Inr ?x"
    using FieldUnparser_combine_merge[OF z(1) z(2) vx vz] z(3) z(4) by blast
  have 2: "FieldUnparser_combine ?x ?y = Inr ?x"
    using FieldUnparser_combine_merge[OF y(1) y(2) vx vy] y(3) z(4) eqv by blast
  show ?thesis using 1 2 by simp
qed

subsection \<open>Claims about structural equality\<close>

declare unparser_struct_eq.simps [simp del]

lemma is_same_iff: "is_same xs = (xs \<noteq> [] \<and> (\<forall>x \<in> set xs. x = hd xs))"
  by (cases xs) (auto simp: list_all_iff)

lemma token_vals_tokens: "token_vals (map (\<lambda>(v, m). Token v m) ts) = map fst ts"
  by (induction ts) auto

lemma unwrap_tokens:
  "map unwrap_dont_skip (filter (\<lambda>p. p \<noteq> Null) (map (\<lambda>(v, m). Token v m) ts))
     = map (\<lambda>(v, m). Token v m) ts"
  by (induction ts) auto

lemma types_tokens:
  "ts \<noteq> [] \<Longrightarrow> remdups (map type_of (map (\<lambda>(v, m). Token v m) ts)) = [KToken]"
proof (induction ts)
  case Nil then show ?case by simp
next
  case (Cons t ts)
  show ?case
  proof (cases "ts = []")
    case True then show ?thesis by (cases t) simp
  next
    case False
    then have "KToken \<in> set (map type_of (map (\<lambda>(v, m). Token v m) ts))"
      by (cases ts) (auto split: prod.splits)
    then show ?thesis using Cons False by (cases t) (simp split: prod.splits)
  qed
qed

lemma struct_eq_tokens:
  assumes "2 \<le> length ts"
  shows "unparser_struct_eq gt rules (map (\<lambda>(v, m). Token v m) ts) toplevel
         = Inr (\<forall>t \<in> set ts. fst t = fst (hd ts))"
proof -
  have ne: "ts \<noteq> []" using assms by auto
  have len: "length (map (\<lambda>(v, m). Token v m) ts) \<noteq> 1" using assms by simp
  have "is_same (map fst ts) = (\<forall>t \<in> set ts. fst t = fst (hd ts))"
    using ne by (simp add: is_same_iff hd_map)
  then show ?thesis
    using len
    by (subst unparser_struct_eq.simps)
       (simp only: Let_def unwrap_tokens types_tokens[OF ne] list.case token_vals_tokens,
        simp)
qed

text \<open>
  C4 (amended). For two or more fixed-token parsers compared in one slot,
  \<^verbatim>\<open>unparser_struct_eq\<close> compares the token kinds only (\<^verbatim>\<open>is_same(p.val for p in parsers)\<close>):
  the result is true exactly when every parser has the kind of the first one, at the top
  level and below it. The literal match text is not looked at, so parsers of one kind
  with different match texts are structurally equal.
\<close>

theorem unparser_struct_eq_tokens_compare_kinds:
  assumes "2 \<le> length ts"
  shows "unparser_struct_eq get_type rules (map (\<lambda>(val, mt). Token val mt) ts) toplevel
         = Inr (\<forall>t \<in> set ts. fst t = fst (hd ts))"
  using assms by (rule struct_eq_tokens)

theorem unparser_struct_eq_tokens_compare_kinds_witness:
  "unparser_struct_eq example_get_type example_rules
     [Token tok_identifier ''foo'', Token tok_identifier ''bar'', Token tok_identifier []] False
   = Inr True
   \<and> unparser_struct_eq example_get_type example_rules
     [Token tok_lpar [], Token tok_rpar []] False
   = Inr False"
proof -
  have a: "(2::nat) \<le> length [(tok_identifier, ''foo''), (tok_identifier, ''bar''), (tok_identifier, [])]"
    and b: "(2::nat) \<le> length [(tok_lpar, []), (tok_rpar, [])]"
    by simp_all
  show ?thesis
    using unparser_struct_eq_tokens_compare_kinds[OF a, of example_get_type example_rules False]
      unparser_struct_eq_tokens_compare_kinds[OF b, of example_get_type example_rules False]
    by (simp add: example_defs)
qed

theorem unparser_struct_eq_ignores_match_text_counterexample:
  "(tok_identifier, Some ''foo'') \<noteq> (tok_identifier, Some ''bar'')
   \<and> unparser_struct_eq example_get_type example_rules
        [Token tok_identifier ''foo'', Token tok_identifier ''bar''] False
      = Inr True
   \<and> unparser_struct_eq example_get_type example_rules
        [Token tok_identifier ''foo'', Token tok_identifier ''bar''] True
      = Inr True"
  by (simp add: unparser_struct_eq.simps)

text \<open>
  C5 (amended). After unwrapping \<^verbatim>\<open>DontSkip\<close> and discarding \<^verbatim>\<open>Null\<close> parsers,
  \<^verbatim>\<open>unparser_struct_eq\<close> returns true when exactly one occurrence remains, at every
  level; when none remains it returns true below the top level and false at the top
  level. It is reflexive for every singleton list whose parser is not \<^verbatim>\<open>Null\<close>.
\<close>

theorem unparser_struct_eq_few_occurrences:
  "(length (map unwrap_dont_skip (filter (\<lambda>p. p \<noteq> Null) ps)) = 1 \<longrightarrow>
      unparser_struct_eq get_type rules ps toplevel = Inr True)
   \<and> (filter (\<lambda>p. p \<noteq> Null) ps = [] \<longrightarrow>
      unparser_struct_eq get_type rules ps toplevel = Inr (\<not> toplevel))
   \<and> (p \<noteq> Null \<longrightarrow> unparser_struct_eq get_type rules [p] toplevel = Inr True)"
  by (simp add: unparser_struct_eq.simps[of get_type rules ps]
        unparser_struct_eq.simps[of get_type rules "[p]"])

theorem unparser_struct_eq_few_occurrences_witness:
  "unparser_struct_eq example_get_type example_rules
     [Null, DontSkip (Token tok_lpar []), Null] True = Inr True
   \<and> unparser_struct_eq example_get_type example_rules [Null, Null] False = Inr True
   \<and> unparser_struct_eq example_get_type example_rules [DontSkip Null] True = Inr True"
  using unparser_struct_eq_few_occurrences[of "[Null, DontSkip (Token tok_lpar []), Null]"
          example_get_type example_rules True Skip]
    unparser_struct_eq_few_occurrences[of "[Null, Null]" example_get_type example_rules False Skip]
    unparser_struct_eq_few_occurrences[of "[]" example_get_type example_rules True "DontSkip Null"]
  by simp

theorem unparser_struct_eq_singleton_null_counterexample:
  "unparser_struct_eq example_get_type example_rules [Null] True = Inr False"
  by (simp add: unparser_struct_eq.simps)

subsection \<open>The grammar walk\<close>

declare compute_internal.simps [simp del]

lemma append_rule_flag:
  "append_rule gt node p st = Inr st' \<Longrightarrow> generate_unparser st' = generate_unparser st"
  by (auto simp: append_rule_def Let_def ebind_def split: if_splits sum.splits prod.splits)

lemma append_alternatives_flag:
  "append_alternatives gt alts p st = Inr st' \<Longrightarrow> generate_unparser st' = generate_unparser st"
proof (induction alts arbitrary: st)
  case Nil then show ?case by simp
next
  case (Cons a alts)
  then obtain st1 where 1: "append_rule gt a p st = Inr st1"
    and 2: "append_alternatives gt alts p st1 = Inr st'"
    by (auto simp: ebind_def split: sum.splits)
  show ?case using Cons.IH[OF 2] append_rule_flag[OF 1] by simp
qed

lemma compute_step_flag:
  "compute_step gt p toplevel st = Inr (st', toplevel') \<Longrightarrow>
     generate_unparser st' = generate_unparser st"
  by (cases p)
     (auto simp: compute_step_def ebind_def check_source_language_def
        split: sum.splits option.splits if_splits
        dest: append_rule_flag append_alternatives_flag)

lemma compute_internal_Inr:
  "compute_internal gt p toplevel st = Inr st' \<Longrightarrow>
     \<exists>st1 tl1. compute_step gt p toplevel st = Inr (st1, tl1)
       \<and> compute_children gt (children p) tl1 st1 = Inr st'"
  by (subst (asm) compute_internal.simps) (auto simp: ebind_def split: sum.splits)

lemma compute_children_Inr:
  "compute_children gt (c # cs) toplevel st = Inr st' \<Longrightarrow>
     \<exists>st1. compute_internal gt c toplevel st = Inr st1
       \<and> compute_children gt cs toplevel st1 = Inr st'"
  by (auto simp: ebind_def split: sum.splits)

lemma compute_internal_flag:
  "(compute_internal gt p toplevel st = Inr st' \<longrightarrow>
      generate_unparser st' = generate_unparser st)"
  and compute_children_flag:
  "(compute_children gt cs toplevel st = Inr st' \<longrightarrow>
      generate_unparser st' = generate_unparser st)"
proof (induction gt p toplevel st and gt cs toplevel st arbitrary: st' and st'
       rule: compute_internal_compute_children.induct)
  case (1 gt p toplevel st)
  show ?case
  proof
    assume "compute_internal gt p toplevel st = Inr st'"
    then obtain st1 tl1 where s: "compute_step gt p toplevel st = Inr (st1, tl1)"
      and c: "compute_children gt (children p) tl1 st1 = Inr st'"
      using compute_internal_Inr by blast
    have "generate_unparser st' = generate_unparser st1"
      using "1.IH"[OF s refl, of st'] c by simp
    then show "generate_unparser st' = generate_unparser st"
      using compute_step_flag[OF s] by simp
  qed
next
  case (2 gt toplevel st)
  then show ?case by simp
next
  case (3 gt c cs toplevel st)
  show ?case
  proof
    assume "compute_children gt (c # cs) toplevel st = Inr st'"
    then obtain st1 where a: "compute_internal gt c toplevel st = Inr st1"
      and b: "compute_children gt cs toplevel st1 = Inr st'"
      using compute_children_Inr by blast
    show "generate_unparser st' = generate_unparser st"
      using "3.IH"(1)[of st1] "3.IH"(2)[OF a, of st'] a b by simp
  qed
qed

text \<open>With generation requested, a top-level information loss stops the walk.\<close>

lemma compute_step_toplevel:
  "compute_step gt p True st = Inr (st1, tl1) \<Longrightarrow> toplevel_loss p \<Longrightarrow> generate_unparser st \<Longrightarrow>
     tl1 \<and> list_ex toplevel_loss (children p)"
  by (cases p)
     (auto simp: compute_step_def ebind_def check_source_language_def
        split: sum.splits option.splits if_splits)

lemma compute_step_extract_fatal:
  "generate_unparser st \<Longrightarrow> \<not> node_then_termination ps \<Longrightarrow>
     compute_step gt (Extract ps i) True st
       = Inl (Fatal (PyStr ''Top-level information loss prevents unparsers generation''))"
  by (simp add: compute_step_def check_source_language_def)

lemma compute_step_extract_only_fatal:
  "compute_step gt (Extract ps i) True st = Inl e \<Longrightarrow>
     e = Fatal (PyStr ''Top-level information loss prevents unparsers generation'')"
  by (auto simp: compute_step_def check_source_language_def ebind_def split: if_splits)

lemma loss_stops_walk:
  "(generate_unparser st \<longrightarrow> toplevel \<longrightarrow> toplevel_loss p \<longrightarrow>
      (\<exists>e. compute_internal gt p toplevel st = Inl e))"
  and loss_stops_children:
  "(generate_unparser st \<longrightarrow> toplevel \<longrightarrow> list_ex toplevel_loss cs \<longrightarrow>
      (\<exists>e. compute_children gt cs toplevel st = Inl e))"
proof (induction gt p toplevel st and gt cs toplevel st
       rule: compute_internal_compute_children.induct)
  case (1 gt p toplevel st)
  show ?case
  proof (intro impI)
    assume g: "generate_unparser st" and t: toplevel and l: "toplevel_loss p"
    show "\<exists>e. compute_internal gt p toplevel st = Inl e"
    proof (cases "compute_step gt p toplevel st")
      case (Inl e)
      then show ?thesis by (simp add: compute_internal.simps)
    next
      case (Inr r)
      obtain st1 tl1 where r: "r = (st1, tl1)" by (cases r)
      have s: "compute_step gt p toplevel st = Inr (st1, tl1)" using Inr r by simp
      have "tl1 \<and> list_ex toplevel_loss (children p)"
        using compute_step_toplevel[of gt p st st1 tl1] s t l g by simp
      moreover have "generate_unparser st1" using compute_step_flag[OF s] g by simp
      ultimately have "\<exists>e. compute_children gt (children p) tl1 st1 = Inl e"
        using "1.IH"[OF s refl] by simp
      then show ?thesis using s by (simp add: compute_internal.simps)
    qed
  qed
next
  case (2 gt toplevel st)
  then show ?case by simp
next
  case (3 gt c cs toplevel st)
  show ?case
  proof (intro impI)
    assume g: "generate_unparser st" and t: toplevel
      and l: "list_ex toplevel_loss (c # cs)"
    show "\<exists>e. compute_children gt (c # cs) toplevel st = Inl e"
    proof (cases "compute_internal gt c toplevel st")
      case (Inl e)
      then show ?thesis by simp
    next
      case (Inr st1)
      then have "\<not> toplevel_loss c" using "3.IH"(1) g t by auto
      then have "list_ex toplevel_loss cs" using l by simp
      moreover have "generate_unparser st1" using compute_internal_flag[of gt c toplevel st st1] Inr g by simp
      ultimately show ?thesis using "3.IH"(2)[OF Inr] t Inr by simp
    qed
  qed
qed

text \<open>Without generation the walk only records the rules.\<close>

lemma record_all_append: "record_all d (xs @ ys) = record_all (record_all d xs) ys"
  by (induction d xs rule: record_all.induct) simp_all

lemma append_rule_off:
  "\<not> generate_unparser st \<Longrightarrow>
     append_rule gt node p st = Inr (st\<lparr>nodes_to_rules := dd_append (nodes_to_rules st) node p\<rparr>)"
  by (simp add: append_rule_def)

lemma append_alternatives_off:
  "\<not> generate_unparser st \<Longrightarrow>
     append_alternatives gt alts p st
       = Inr (st\<lparr>nodes_to_rules := record_all (nodes_to_rules st) (map (\<lambda>n. (n, p)) alts)\<rparr>)"
  by (induction alts arbitrary: st) (simp_all add: append_rule_off)

lemma compute_step_off:
  "\<not> generate_unparser st \<Longrightarrow>
     \<exists>tl1. compute_step gt p toplevel st
       = Inr (st\<lparr>nodes_to_rules := record_all (nodes_to_rules st) (step_rules gt p)\<rparr>, tl1)"
  by (cases p)
     (auto simp: compute_step_def step_rules_def append_rule_off append_alternatives_off
        check_source_language_def split: option.splits)

lemma recorded_rules_children:
  "recorded_rules gt p = step_rules gt p @ concat (map (recorded_rules gt) (children p))"
  by (cases p) (auto simp: step_rules_def split: option.splits)

lemma walk_off:
  "(\<not> generate_unparser st \<longrightarrow>
      compute_internal gt p toplevel st
        = Inr (st\<lparr>nodes_to_rules := record_all (nodes_to_rules st) (recorded_rules gt p)\<rparr>))"
  and walk_children_off:
  "(\<not> generate_unparser st \<longrightarrow>
      compute_children gt cs toplevel st
        = Inr (st\<lparr>nodes_to_rules :=
                   record_all (nodes_to_rules st) (concat (map (recorded_rules gt) cs))\<rparr>))"
proof (induction gt p toplevel st and gt cs toplevel st
       rule: compute_internal_compute_children.induct)
  case (1 gt p toplevel st)
  show ?case
  proof
    assume g: "\<not> generate_unparser st"
    let ?st1 = "st\<lparr>nodes_to_rules := record_all (nodes_to_rules st) (step_rules gt p)\<rparr>"
    obtain tl1 where s: "compute_step gt p toplevel st = Inr (?st1, tl1)"
      using compute_step_off[OF g] by blast
    have "compute_children gt (children p) tl1 ?st1
            = Inr (?st1\<lparr>nodes_to_rules := record_all (nodes_to_rules ?st1)
                         (concat (map (recorded_rules gt) (children p)))\<rparr>)"
      using "1.IH"[OF s refl] g by simp
    then show "compute_internal gt p toplevel st
        = Inr (st\<lparr>nodes_to_rules := record_all (nodes_to_rules st) (recorded_rules gt p)\<rparr>)"
      using s
      by (simp add: compute_internal.simps record_all_append
            recorded_rules_children[of gt p])
  qed
next
  case (2 gt toplevel st)
  then show ?case by simp
next
  case (3 gt c cs toplevel st)
  show ?case
  proof
    assume g: "\<not> generate_unparser st"
    let ?st1 = "st\<lparr>nodes_to_rules := record_all (nodes_to_rules st) (recorded_rules gt c)\<rparr>"
    have a: "compute_internal gt c toplevel st = Inr ?st1" using "3.IH"(1) g by simp
    have "compute_children gt cs toplevel ?st1
            = Inr (?st1\<lparr>nodes_to_rules := record_all (nodes_to_rules ?st1)
                         (concat (map (recorded_rules gt) cs))\<rparr>)"
      using "3.IH"(2)[OF a] g by simp
    then show "compute_children gt (c # cs) toplevel st
        = Inr (st\<lparr>nodes_to_rules :=
                   record_all (nodes_to_rules st) (concat (map (recorded_rules gt) (c # cs)))\<rparr>)"
      using a by (simp add: record_all_append)
  qed
qed

subsection \<open>Claims about the grammar walk and the generation flag\<close>

lemma not_whitelisted_creates_no_node:
  "\<not> node_then_termination ps \<Longrightarrow> \<not> creates_node gt (Extract ps i)"
  by (induction ps rule: node_then_termination.induct) (simp_all split: list.splits)

lemma abort_unparser_fields:
  "\<not> generate_unparser (abort_unparser m st)"
  "unparsers (abort_unparser m st) = unparsers st"
  "nodes_to_rules (abort_unparser m st) = nodes_to_rules st"
  "final_unparser (abort_unparser m st) = final_unparser st"
  by (simp_all add: abort_unparser_def Let_def)

lemma warn_unused_fields:
  "generate_unparser (fold warn_unused_node_type types st) = generate_unparser st"
  "unparsers (fold warn_unused_node_type types st) = unparsers st"
  by (induction types arbitrary: st) (simp_all add: warn_unused_node_type_def)

lemma finalize_node_fields:
  "finalize_node node st = Inr st' \<Longrightarrow>
     generate_unparser st' = generate_unparser st \<and> unparsers st' = unparsers st"
  by (auto simp: finalize_node_def ebind_def split: list.splits sum.splits)

lemma finalize_fields:
  "finalize types st = Inr st' \<Longrightarrow>
     generate_unparser st' = generate_unparser st \<and> unparsers st' = unparsers st"
proof (induction types arbitrary: st)
  case Nil then show ?case by simp
next
  case (Cons n types)
  then obtain st1 where 1: "finalize_node n st = Inr st1" and 2: "finalize types st1 = Inr st'"
    by (auto simp: ebind_def split: sum.splits)
  show ?case using Cons.IH[OF 2] finalize_node_fields[OF 1] by simp
qed

lemma finalize_without_occurrences:
  "unparsers st = [] \<Longrightarrow> finalize types st = Inr st"
  by (induction types) (simp_all add: finalize_node_def)

lemma compute_off:
  assumes "\<not> generate_unparser st" and "\<not> is_dont_skip_parser r"
  shows "compute gt r st =
     Inr (if creates_node gt (rule_parser r)
          then st\<lparr>nodes_to_rules := record_all (nodes_to_rules st)
                     (recorded_rules gt (rule_parser r))\<rparr>
          else abort_unparser ([CHR 0x27] @ rule_name r @ [CHR 0x27]
                                 @ '' toplevel rule loses information.'')
                 (st\<lparr>nodes_to_rules := record_all (nodes_to_rules st)
                        (recorded_rules gt (rule_parser r))\<rparr>))"
  using assms walk_off[of st gt "rule_parser r" True] by (simp add: compute_def)

text \<open>
  C2 (amended). For a rule whose root is an extraction dropping an element other than
  the trailing termination token: with generation requested \<^verbatim>\<open>compute\<close> raises the fatal
  diagnostic and the flag is not flipped; only when generation is not requested does
  \<^verbatim>\<open>compute\<close> return, with the flag false, no unparser occurrence appended and no final
  unparser set, and then \<^verbatim>\<open>finalize\<close> on a registry without occurrences changes nothing.
\<close>

theorem toplevel_extraction_soft_abort_only_without_generation:
  assumes "rule_parser r = Extract ps i" and "\<not> node_then_termination ps"
    and "\<not> is_dont_skip_parser r"
  shows "(generate_unparser st \<longrightarrow>
            compute get_type r st
              = Inl (Fatal (PyStr ''Top-level information loss prevents unparsers generation'')))
       \<and> (\<not> generate_unparser st \<longrightarrow>
            (\<exists>st'. compute get_type r st = Inr st'
               \<and> \<not> generate_unparser st'
               \<and> unparsers st' = unparsers st
               \<and> final_unparser st' = final_unparser st
               \<and> (unparsers st = [] \<longrightarrow> finalize types st' = Inr st')))"
proof -
  have 1: "generate_unparser st \<longrightarrow>
            compute get_type r st
              = Inl (Fatal (PyStr ''Top-level information loss prevents unparsers generation''))"
    using assms compute_step_extract_fatal[of st ps get_type i]
    by (auto simp: compute_def compute_internal.simps)
  have 2: "\<not> generate_unparser st \<longrightarrow>
            (\<exists>st'. compute get_type r st = Inr st'
               \<and> \<not> generate_unparser st'
               \<and> unparsers st' = unparsers st
               \<and> final_unparser st' = final_unparser st
               \<and> (unparsers st = [] \<longrightarrow> finalize types st' = Inr st'))"
  proof
    assume g: "\<not> generate_unparser st"
    let ?st' = "abort_unparser ([CHR 0x27] @ rule_name r @ [CHR 0x27]
                                 @ '' toplevel rule loses information.'')
                 (st\<lparr>nodes_to_rules := record_all (nodes_to_rules st)
                        (recorded_rules get_type (rule_parser r))\<rparr>)"
    have c: "compute get_type r st = Inr ?st'"
      using compute_off[OF g assms(3), of get_type]
        not_whitelisted_creates_no_node[OF assms(2), of get_type i] assms(1) by simp
    have u: "unparsers ?st' = unparsers st" by (simp add: abort_unparser_fields)
    have "unparsers st = [] \<longrightarrow> finalize types ?st' = Inr ?st'"
      using u finalize_without_occurrences[of ?st' types] by simp
    then show "\<exists>st'. compute get_type r st = Inr st'
               \<and> \<not> generate_unparser st'
               \<and> unparsers st' = unparsers st
               \<and> final_unparser st' = final_unparser st
               \<and> (unparsers st = [] \<longrightarrow> finalize types st' = Inr st')"
      using c u by (auto simp: abort_unparser_fields)
  qed
  show ?thesis using 1 2 by blast
qed

theorem toplevel_extraction_soft_abort_only_without_generation_witness:
  "rule_parser lossy_rule = Extract [Token tok_lpar [], Defer ''item'', Token tok_rpar []] 1
   \<and> \<not> node_then_termination [Token tok_lpar [], Defer ''item'', Token tok_rpar []]
   \<and> \<not> is_dont_skip_parser lossy_rule
   \<and> (\<exists>st'. compute example_get_type lossy_rule (Unparsers_init False) = Inr st'
         \<and> \<not> generate_unparser st' \<and> unparsers st' = [] \<and> final_unparser st' = Map.empty
         \<and> finalize [example_node, list_node] st' = Inr st')"
proof -
  have a: "rule_parser lossy_rule = Extract [Token tok_lpar [], Defer ''item'', Token tok_rpar []] 1"
    and b: "\<not> node_then_termination [Token tok_lpar [], Defer ''item'', Token tok_rpar []]"
    and c: "\<not> is_dont_skip_parser lossy_rule"
    by (simp_all add: lossy_rule_def)
  show ?thesis
    using toplevel_extraction_soft_abort_only_without_generation[OF a b c,
        of "Unparsers_init False" example_get_type "[example_node, list_node]"] a b c
    by (simp add: Unparsers_init_def)
qed

theorem compute_with_generation_is_fatal_counterexample:
  "generate_unparser (Unparsers_init True)
   \<and> compute example_get_type lossy_rule (Unparsers_init True)
       = Inl (Fatal (PyStr ''Top-level information loss prevents unparsers generation''))"
  by (simp add: compute_def compute_internal.simps compute_step_def check_source_language_def
        lossy_rule_def Unparsers_init_def)

text \<open>
  C9. \<^verbatim>\<open>abort_unparser\<close> clears the flag, and from a state where the flag is false:
  \<^verbatim>\<open>compute\<close> always returns, leaves the flag false and the unparser occurrences as they
  were, and still records in \<^verbatim>\<open>nodes_to_rules\<close> every rule met by the walk;
  \<^verbatim>\<open>check_nodes_to_rules\<close> returns with the flag false; \<^verbatim>\<open>finalize\<close>, when it returns,
  leaves the flag false.
\<close>

theorem generation_flag_stays_cleared:
  assumes "\<not> generate_unparser st"
  shows "\<not> generate_unparser (abort_unparser message st0)
       \<and> (\<exists>st'. compute get_type r st = Inr st'
             \<and> \<not> generate_unparser st'
             \<and> unparsers st' = unparsers st
             \<and> nodes_to_rules st'
                 = (if is_dont_skip_parser r then nodes_to_rules st
                    else record_all (nodes_to_rules st) (recorded_rules get_type (rule_parser r))))
       \<and> (\<exists>st'. check_nodes_to_rules get_type rules types st = Inr st'
             \<and> \<not> generate_unparser st' \<and> unparsers st' = unparsers st)
       \<and> (\<forall>st'. finalize types st = Inr st' \<longrightarrow>
             \<not> generate_unparser st' \<and> unparsers st' = unparsers st)"
proof -
  have 0: "\<not> generate_unparser (abort_unparser message st0)"
    by (simp add: abort_unparser_fields)
  have 1: "\<exists>st'. compute get_type r st = Inr st'
             \<and> \<not> generate_unparser st'
             \<and> unparsers st' = unparsers st
             \<and> nodes_to_rules st'
                 = (if is_dont_skip_parser r then nodes_to_rules st
                    else record_all (nodes_to_rules st) (recorded_rules get_type (rule_parser r)))"
  proof (cases "is_dont_skip_parser r")
    case True
    then show ?thesis using assms by (simp add: compute_def)
  next
    case False
    then show ?thesis using assms compute_off[OF assms False, of get_type]
      by (auto simp: abort_unparser_fields)
  qed
  have 2: "\<exists>st'. check_nodes_to_rules get_type rules types st = Inr st'
             \<and> \<not> generate_unparser st' \<and> unparsers st' = unparsers st"
    using assms by (simp add: check_nodes_to_rules_def Let_def warn_unused_fields)
  have 3: "\<forall>st'. finalize types st = Inr st' \<longrightarrow>
             \<not> generate_unparser st' \<and> unparsers st' = unparsers st"
    using assms finalize_fields[of types st] by auto
  show ?thesis using 0 1 2 3 by blast
qed

theorem generation_flag_stays_cleared_witness:
  "\<not> generate_unparser (abort_unparser ''lossy_rule loses information.'' (Unparsers_init True))
   \<and> (\<exists>st'. compute example_get_type paren_rule
               (abort_unparser ''lossy_rule loses information.'' (Unparsers_init True)) = Inr st'
         \<and> \<not> generate_unparser st' \<and> unparsers st' = []
         \<and> nodes_to_rules st' = [(example_node, [paren_parser])])"
proof -
  let ?st = "abort_unparser ''lossy_rule loses information.'' (Unparsers_init True)"
  have g: "\<not> generate_unparser ?st" by (simp add: abort_unparser_fields)
  show ?thesis
    using generation_flag_stays_cleared[OF g, of "''x''" "Unparsers_init True"
        example_get_type paren_rule example_rules "[]"] g
    by (simp add: abort_unparser_fields Unparsers_init_def paren_rule_def paren_parser_def
          example_get_type_def)
qed

subsection \<open>Derivation of token runs and field slots\<close>

declare emit_to_token_sequence.simps [simp del]
declare from_parser.simps [simp del]
declare emit_to_field_unparser.simps [simp del]

lemma cache_ok_empty: "cache_ok Map.empty"
  by (simp add: cache_ok_def)

lemma token_unparser_for_ok:
  assumes "cache_ok c" and "token_parser_ok (val, mt)"
  shows "\<exists>c'. token_unparser_for val mt c = Inr (unparser_of (val, mt), c') \<and> cache_ok c'
           \<and> c' (val, if mt \<noteq> [] then Some mt else None) = Some (unparser_of (val, mt))"
proof (cases "c (val, if mt \<noteq> [] then Some mt else None)")
  case None
  then show ?thesis
    using assms
    by (auto simp: token_unparser_for_def Let_def TokenUnparser_init_def truthy_text_def
          token_parser_ok_def unparser_of_def cache_ok_def)
next
  case (Some r)
  then have "r = unparser_of (val, mt)"
    using assms(1) by (auto simp: cache_ok_def unparser_of_def)
  then show ?thesis
    using Some assms(1) by (auto simp: token_unparser_for_def Let_def)
qed

lemma emit_token:
  "emit_to_token_sequence (Token val mt) acc c
     = ebind (token_unparser_for val mt c) (\<lambda>(tu, c'). Inr (acc @ [tu], c'))"
  by (simp add: emit_to_token_sequence.simps)

lemma emit_each_tokens:
  assumes "cache_ok c" and "list_all token_parser_ok ts"
  shows "\<exists>c'. emit_each (map token_parser ts) acc c = Inr (acc @ map unparser_of ts, c')
           \<and> cache_ok c'"
  using assms
proof (induction ts arbitrary: acc c)
  case Nil
  then show ?case by simp
next
  case (Cons t ts)
  obtain val mt where t: "t = (val, mt)" by (cases t)
  obtain c1 where 1: "token_unparser_for val mt c = Inr (unparser_of (val, mt), c1)"
    and ok1: "cache_ok c1"
    using token_unparser_for_ok[of c val mt] Cons.prems t by auto
  obtain c2 where 2: "emit_each (map token_parser ts) (acc @ [unparser_of t]) c1
                        = Inr ((acc @ [unparser_of t]) @ map unparser_of ts, c2)"
    and ok2: "cache_ok c2"
    using Cons.IH[OF ok1, of "acc @ [unparser_of t]"] Cons.prems(2) by auto
  have tp: "token_parser (val, mt) = Token val mt" by (simp add: token_parser_def)
  show ?case
    using 1 2 ok2 t by (auto simp: tp emit_token)
qed

lemma split_extract_tokens:
  assumes "cache_ok c" and "list_all token_parser_ok pre" and "list_all token_parser_ok post"
  shows "\<exists>c'. split_extract (map token_parser pre @ [x] @ map token_parser post) (length pre) c
                = Inr (map unparser_of pre, x, map unparser_of post, c')
           \<and> cache_ok c'"
proof -
  obtain c1 where 1: "emit_each (map token_parser pre) [] c = Inr ([] @ map unparser_of pre, c1)"
    and ok1: "cache_ok c1"
    using emit_each_tokens[OF assms(1,2), of "[]"] by blast
  obtain c2 where 2: "emit_each (map token_parser post) [] c1 = Inr ([] @ map unparser_of post, c2)"
    and ok2: "cache_ok c2"
    using emit_each_tokens[OF ok1 assms(3), of "[]"] by blast
  show ?thesis
    using 1 2 ok2 by (simp add: split_extract_def nth_append)
qed

lemma emit_to_field_direct:
  "direct_node_parser p \<Longrightarrow>
     emit_to_field_unparser gt p fu c
       = Inr (fu\<lparr>always_absent := always_absent fu \<and> unwrap_dont_skip p = Null\<rparr>, c)"
  by (subst emit_to_field_unparser.simps)
     (auto simp: direct_node_parser_def split: parser.splits)

lemma emit_to_field_extract:
  "emit_to_field_unparser gt (Extract ps i) fu c =
     ebind (split_extract ps i c)
       (\<lambda>(pre_toks, node_parser, post_toks, c').
          emit_to_field_unparser gt node_parser
            (fu\<lparr>always_absent := False,
               fu_pre_tokens := fu_pre_tokens fu @ pre_toks,
               fu_post_tokens := post_toks @ fu_post_tokens fu\<rparr>) c')"
  by (subst emit_to_field_unparser.simps) simp

lemma nested_extract_field:
  assumes "cache_ok c"
    and "list_all (\<lambda>(pre, post). list_all token_parser_ok pre \<and> list_all token_parser_ok post) layers"
    and "direct_node_parser inner"
  shows "\<exists>c'. emit_to_field_unparser gt (nested_extract layers inner) fu c
           = Inr (fu\<lparr>always_absent :=
                       (layers = [] \<and> always_absent fu \<and> unwrap_dont_skip inner = Null),
                    fu_pre_tokens :=
                       fu_pre_tokens fu @ concat (map (\<lambda>(pre, post). map unparser_of pre) layers),
                    fu_post_tokens :=
                       concat (rev (map (\<lambda>(pre, post). map unparser_of post) layers))
                       @ fu_post_tokens fu\<rparr>, c')
         \<and> cache_ok c'"
  using assms(1,2)
proof (induction layers arbitrary: fu c)
  case Nil
  then show ?case using assms(3) by (auto simp: emit_to_field_direct)
next
  case (Cons layer layers)
  obtain pre post where l: "layer = (pre, post)" by (cases layer)
  have oks: "list_all token_parser_ok pre" "list_all token_parser_ok post"
    and rest: "list_all (\<lambda>(pre, post). list_all token_parser_ok pre \<and> list_all token_parser_ok post) layers"
    using Cons.prems(2) l by auto
  obtain c1 where 1: "split_extract (map token_parser pre @ [nested_extract layers inner]
                          @ map token_parser post) (length pre) c
                = Inr (map unparser_of pre, nested_extract layers inner, map unparser_of post, c1)"
    and ok1: "cache_ok c1"
    using split_extract_tokens[OF Cons.prems(1) oks] by blast
  let ?fu1 = "fu\<lparr>always_absent := False,
               fu_pre_tokens := fu_pre_tokens fu @ map unparser_of pre,
               fu_post_tokens := map unparser_of post @ fu_post_tokens fu\<rparr>"
  obtain c2 where 2: "emit_to_field_unparser gt (nested_extract layers inner) ?fu1 c1
           = Inr (?fu1\<lparr>always_absent :=
                       (layers = [] \<and> always_absent ?fu1 \<and> unwrap_dont_skip inner = Null),
                    fu_pre_tokens :=
                       fu_pre_tokens ?fu1 @ concat (map (\<lambda>(pre, post). map unparser_of pre) layers),
                    fu_post_tokens :=
                       concat (rev (map (\<lambda>(pre, post). map unparser_of post) layers))
                       @ fu_post_tokens ?fu1\<rparr>, c2)"
    and ok2: "cache_ok c2"
    using Cons.IH[OF ok1 rest, of ?fu1] by blast
  show ?case
    using 1 2 ok2 l by (auto simp: emit_to_field_extract)
qed

lemma direct_not_discard: "direct_node_parser p \<Longrightarrow> \<not> discard p"
proof (cases p)
  case (DontSkip q)
  assume "direct_node_parser p"
  then show ?thesis using DontSkip by (cases q) (simp_all add: direct_node_parser_def)
qed (simp_all add: direct_node_parser_def)

lemma paren_field_paren:
  assumes "\<not> abstract node" and "\<not> synthetic node" and "\<not> is_token_node node"
    and "parse_fields node = [f]"
    and "matcher lpar \<noteq> None" and "matcher rpar \<noteq> None"
    and "direct_node_parser field_parser" and "cache_ok c"
  shows "\<exists>c'. from_parser gt node (Transform [Token lpar [], field_parser, Token rpar []]) c
           = Inr (RegularNodeUnparser
                    \<lparr>rn_node = node,
                     pre_tokens = [\<lparr>token = lpar, match_text = None\<rparr>],
                     field_unparsers =
                       [\<lparr>fu_node = node, fu_field = f,
                         always_absent = (unwrap_dont_skip field_parser = Null),
                         fu_pre_tokens = [], fu_post_tokens = []\<rparr>],
                     inter_tokens = [],
                     post_tokens = [\<lparr>token = rpar, match_text = None\<rparr>]\<rparr>, c')
         \<and> cache_ok c'"
proof -
  have okl: "token_parser_ok (lpar, [])" and okr: "token_parser_ok (rpar, [])"
    using assms(5,6) by (simp_all add: token_parser_ok_def)
  obtain c1 where 1: "token_unparser_for lpar [] c = Inr (unparser_of (lpar, []), c1)"
    and ok1: "cache_ok c1"
    using token_unparser_for_ok[OF assms(8) okl] by blast
  obtain c2 where 2: "token_unparser_for rpar [] c1 = Inr (unparser_of (rpar, []), c2)"
    and ok2: "cache_ok c2"
    using token_unparser_for_ok[OF ok1 okr] by blast
  have nd: "\<not> discard field_parser" using assms(7) by (rule direct_not_discard)
  have "from_parser gt node (Transform [Token lpar [], field_parser, Token rpar []]) c
           = Inr (RegularNodeUnparser
                    \<lparr>rn_node = node,
                     pre_tokens = [\<lparr>token = lpar, match_text = None\<rparr>],
                     field_unparsers =
                       [\<lparr>fu_node = node, fu_field = f,
                         always_absent = (unwrap_dont_skip field_parser = Null),
                         fu_pre_tokens = [], fu_post_tokens = []\<rparr>],
                     inter_tokens = [],
                     post_tokens = [\<lparr>token = rpar, match_text = None\<rparr>]\<rparr>, c2)"
    using assms(1-4) 1 2 nd
    by (simp add: from_parser.simps[of gt node "Transform [Token lpar [], field_parser, Token rpar []]"]
          RegularNodeUnparser_init_def FieldUnparser_init_def emit_token
          emit_to_field_direct[OF assms(7)] unparser_of_def)
  then show ?thesis using ok2 by blast
qed

text \<open>A field unparser that is still always absent after a derivation step was not
  touched by it, so always-absent field unparsers carry no tokens.\<close>

lemma emit_to_field_absent_unchanged:
  "emit_to_field_unparser gt p fu c = Inr (fu', c') \<Longrightarrow> always_absent fu' \<Longrightarrow> fu' = fu"
proof (induction gt p fu c arbitrary: fu' c'
       rule: from_parser_emit_to_field_unparser_transform_loop_or_branches.induct(2)
         [where P = "\<lambda>_ _ _ _. True" and R = "\<lambda>_ _ _ _ _. True" and S = "\<lambda>_ _ _. True"])
  case (2 gt parser fu c)
  note r = "2.prems"(1)[unfolded emit_to_field_unparser.simps[of gt parser fu c]]
  note aa = "2.prems"(2)
  show ?case
  proof (cases "unwrap_dont_skip parser")
    case (Opt q b e)
    show ?thesis
    proof (cases b)
      case None
      then have "emit_to_field_unparser gt q (fu\<lparr>always_absent := False\<rparr>) c = Inr (fu', c')"
        using r Opt by simp
      then have "fu' = fu\<lparr>always_absent := False\<rparr>"
        using "2.IH"(1)[OF Opt None] aa by blast
      then show ?thesis using aa by simp
    next
      case (Some bz)
      then show ?thesis using r Opt by simp
    qed
  next
    case (Extract ps i)
    then obtain pre np post c1 where
      s: "split_extract ps i c = Inr (pre, np, post, c1)"
      and e: "emit_to_field_unparser gt np
                (fu\<lparr>always_absent := False,
                    fu_pre_tokens := fu_pre_tokens fu @ pre,
                    fu_post_tokens := post @ fu_post_tokens fu\<rparr>) c1 = Inr (fu', c')"
      using r by (auto simp: ebind_def split: sum.splits prod.splits)
    have "fu' = fu\<lparr>always_absent := False,
                    fu_pre_tokens := fu_pre_tokens fu @ pre,
                    fu_post_tokens := post @ fu_post_tokens fu\<rparr>"
      using "2.IH"(2) Extract s e aa by blast
    then show ?thesis using aa by simp
  qed (use r aa in \<open>auto simp: ebind_def split: sum.splits\<close>)
qed simp_all

lemma emit_to_field_keeps_absent_has_no_tokens:
  "emit_to_field_unparser gt p fu c = Inr (fu', c') \<Longrightarrow> absent_has_no_tokens fu \<Longrightarrow>
     absent_has_no_tokens fu'"
  using emit_to_field_absent_unchanged[of gt p fu c fu' c']
  by (auto simp: absent_has_no_tokens_def)

subsection \<open>Claims about the derivation\<close>

text \<open>
  C6. For a concrete node type with exactly one parse field, deriving from the transform
  of the row (literal token "(", a field parser that goes directly to node creation,
  literal token ")") gives a Regular unparser whose \<open>pre_tokens\<close> render as "(", with one
  field unparser without tokens, no inter-field sequence, and \<open>post_tokens\<close> rendering as
  ")". The result does not depend on the token cache the derivation starts from, so a
  second derivation (with the cache left by the first, or with an empty one) gives the
  same unparser.
\<close>

theorem from_parser_paren_field_paren:
  assumes "\<not> abstract node" and "\<not> synthetic node" and "\<not> is_token_node node"
    and "parse_fields node = [f]"
    and "matcher lpar = Some ''(''" and "matcher rpar = Some '')''"
    and "direct_node_parser field_parser" and "cache_ok c"
  shows "\<exists>u c1 c2 c3.
           from_parser get_type node (Transform [Token lpar [], field_parser, Token rpar []]) c
             = Inr (RegularNodeUnparser u, c1)
         \<and> from_parser get_type node (Transform [Token lpar [], field_parser, Token rpar []]) c1
             = Inr (RegularNodeUnparser u, c2)
         \<and> from_parser get_type node (Transform [Token lpar [], field_parser, Token rpar []])
              Map.empty
             = Inr (RegularNodeUnparser u, c3)
         \<and> rn_node u = node
         \<and> pre_tokens u = [\<lparr>token = lpar, match_text = None\<rparr>]
         \<and> TokenSequenceUnparser_dumps (pre_tokens u) = Inr ''(''
         \<and> field_unparsers u =
              [\<lparr>fu_node = node, fu_field = f,
                always_absent = (unwrap_dont_skip field_parser = Null),
                fu_pre_tokens = [], fu_post_tokens = []\<rparr>]
         \<and> inter_tokens u = []
         \<and> post_tokens u = [\<lparr>token = rpar, match_text = None\<rparr>]
         \<and> TokenSequenceUnparser_dumps (post_tokens u) = Inr '')''"
proof -
  let ?p = "Transform [Token lpar [], field_parser, Token rpar []]"
  let ?u = "\<lparr>rn_node = node,
             pre_tokens = [\<lparr>token = lpar, match_text = None\<rparr>],
             field_unparsers =
               [\<lparr>fu_node = node, fu_field = f,
                 always_absent = (unwrap_dont_skip field_parser = Null),
                 fu_pre_tokens = [], fu_post_tokens = []\<rparr>],
             inter_tokens = [],
             post_tokens = [\<lparr>token = rpar, match_text = None\<rparr>]\<rparr>"
  have ml: "matcher lpar \<noteq> None" and mr: "matcher rpar \<noteq> None"
    using assms(5,6) by simp_all
  note derive = paren_field_paren[OF assms(1-4) ml mr assms(7)]
  obtain c1 where 1: "from_parser get_type node ?p c = Inr (RegularNodeUnparser ?u, c1)"
    and ok1: "cache_ok c1"
    using derive[OF assms(8), of get_type] by blast
  obtain c2 where 2: "from_parser get_type node ?p c1 = Inr (RegularNodeUnparser ?u, c2)"
    using derive[OF ok1, of get_type] by blast
  obtain c3 where 3: "from_parser get_type node ?p Map.empty = Inr (RegularNodeUnparser ?u, c3)"
    using derive[OF cache_ok_empty, of get_type] by blast
  have d: "TokenSequenceUnparser_dumps (pre_tokens ?u) = Inr ''(''"
    "TokenSequenceUnparser_dumps (post_tokens ?u) = Inr '')''"
    using assms(5,6) by (simp_all add: TokenSequenceUnparser_dumps_def TokenUnparser_dumps_def)
  show ?thesis
    using 1 2 3 d by (intro exI[of _ ?u] exI[of _ c1] exI[of _ c2] exI[of _ c3]) simp
qed

theorem from_parser_paren_field_paren_witness:
  "\<exists>c1 c2.
     from_parser example_get_type example_node paren_parser Map.empty
       = Inr (RegularNodeUnparser
                \<lparr>rn_node = example_node,
                 pre_tokens = [\<lparr>token = tok_lpar, match_text = None\<rparr>],
                 field_unparsers =
                   [\<lparr>fu_node = example_node, fu_field = example_field, always_absent = False,
                     fu_pre_tokens = [], fu_post_tokens = []\<rparr>],
                 inter_tokens = [],
                 post_tokens = [\<lparr>token = tok_rpar, match_text = None\<rparr>]\<rparr>, c1)
   \<and> from_parser example_get_type example_node paren_parser c1
       = Inr (RegularNodeUnparser
                \<lparr>rn_node = example_node,
                 pre_tokens = [\<lparr>token = tok_lpar, match_text = None\<rparr>],
                 field_unparsers =
                   [\<lparr>fu_node = example_node, fu_field = example_field, always_absent = False,
                     fu_pre_tokens = [], fu_post_tokens = []\<rparr>],
                 inter_tokens = [],
                 post_tokens = [\<lparr>token = tok_rpar, match_text = None\<rparr>]\<rparr>, c2)"
proof -
  have h: "\<not> abstract example_node" "\<not> synthetic example_node" "\<not> is_token_node example_node"
    "parse_fields example_node = [example_field]"
    "matcher tok_lpar = Some ''(''" "matcher tok_rpar = Some '')''"
    "direct_node_parser (Defer ''item'')" "cache_ok Map.empty"
    by (simp_all add: example_defs direct_node_parser_def cache_ok_def)
  obtain u c1 c2 c3 where
    r: "from_parser example_get_type example_node
          (Transform [Token tok_lpar [], Defer ''item'', Token tok_rpar []]) Map.empty
          = Inr (RegularNodeUnparser u, c1)"
       "from_parser example_get_type example_node
          (Transform [Token tok_lpar [], Defer ''item'', Token tok_rpar []]) c1
          = Inr (RegularNodeUnparser u, c2)"
    and u: "rn_node u = example_node"
       "pre_tokens u = [\<lparr>token = tok_lpar, match_text = None\<rparr>]"
       "field_unparsers u =
              [\<lparr>fu_node = example_node, fu_field = example_field,
                always_absent = (unwrap_dont_skip (Defer ''item'') = Null),
                fu_pre_tokens = [], fu_post_tokens = []\<rparr>]"
       "inter_tokens u = []"
       "post_tokens u = [\<lparr>token = tok_rpar, match_text = None\<rparr>]"
    using from_parser_paren_field_paren[OF h, of example_get_type] by blast
  have "u = \<lparr>rn_node = example_node,
                 pre_tokens = [\<lparr>token = tok_lpar, match_text = None\<rparr>],
                 field_unparsers =
                   [\<lparr>fu_node = example_node, fu_field = example_field, always_absent = False,
                     fu_pre_tokens = [], fu_post_tokens = []\<rparr>],
                 inter_tokens = [],
                 post_tokens = [\<lparr>token = tok_rpar, match_text = None\<rparr>]\<rparr>"
    using u by (cases u) simp
  then show ?thesis using r by (auto simp: paren_parser_def)
qed

text \<open>
  C7. Field-slot extraction on extractions nested in one another, each with a run of
  token parsers before and after the extracted element and a directly node-creating
  parser innermost: the field is marked not always absent as soon as there is one
  extraction, the runs before the extracted elements are appended to the field's
  \<open>pre_tokens\<close> from the outermost to the innermost, the runs after them are put in front
  of its \<open>post_tokens\<close> so that they read from the innermost to the outermost, and each
  single extraction splits its row at the index and goes on with the extracted parser.
\<close>

theorem extraction_accumulates_field_tokens:
  assumes "cache_ok c"
    and "list_all (\<lambda>(pre, post). list_all token_parser_ok pre \<and> list_all token_parser_ok post)
           layers"
    and "direct_node_parser inner"
  shows "(\<exists>c'. emit_to_field_unparser get_type (nested_extract layers inner) fu c
           = Inr (fu\<lparr>always_absent :=
                       (layers = [] \<and> always_absent fu \<and> unwrap_dont_skip inner = Null),
                    fu_pre_tokens :=
                       fu_pre_tokens fu @ concat (map (\<lambda>(pre, post). map unparser_of pre) layers),
                    fu_post_tokens :=
                       concat (rev (map (\<lambda>(pre, post). map unparser_of post) layers))
                       @ fu_post_tokens fu\<rparr>, c'))
       \<and> (\<forall>pre_toks node_parser post_toks c1.
            split_extract ps i c = Inr (pre_toks, node_parser, post_toks, c1) \<longrightarrow>
            emit_to_field_unparser get_type (Extract ps i) fu c
              = emit_to_field_unparser get_type node_parser
                  (fu\<lparr>always_absent := False,
                      fu_pre_tokens := fu_pre_tokens fu @ pre_toks,
                      fu_post_tokens := post_toks @ fu_post_tokens fu\<rparr>) c1)"
proof -
  have 1: "\<exists>c'. emit_to_field_unparser get_type (nested_extract layers inner) fu c
           = Inr (fu\<lparr>always_absent :=
                       (layers = [] \<and> always_absent fu \<and> unwrap_dont_skip inner = Null),
                    fu_pre_tokens :=
                       fu_pre_tokens fu @ concat (map (\<lambda>(pre, post). map unparser_of pre) layers),
                    fu_post_tokens :=
                       concat (rev (map (\<lambda>(pre, post). map unparser_of post) layers))
                       @ fu_post_tokens fu\<rparr>, c')"
    using nested_extract_field[OF assms, of get_type fu] by blast
  have 2: "\<forall>pre_toks node_parser post_toks c1.
            split_extract ps i c = Inr (pre_toks, node_parser, post_toks, c1) \<longrightarrow>
            emit_to_field_unparser get_type (Extract ps i) fu c
              = emit_to_field_unparser get_type node_parser
                  (fu\<lparr>always_absent := False,
                      fu_pre_tokens := fu_pre_tokens fu @ pre_toks,
                      fu_post_tokens := post_toks @ fu_post_tokens fu\<rparr>) c1"
    by (simp add: emit_to_field_extract)
  show ?thesis using 1 2 by blast
qed

theorem extraction_accumulates_field_tokens_witness:
  "\<exists>c'. emit_to_field_unparser example_get_type
           (Extract [Token tok_lpar [],
                     Extract [Token tok_comma [], Defer ''item'', Token tok_semicolon []] 1,
                     Token tok_rpar []] 1)
           (FieldUnparser_init example_node example_field) Map.empty
         = Inr (\<lparr>fu_node = example_node, fu_field = example_field, always_absent = False,
                 fu_pre_tokens = [\<lparr>token = tok_lpar, match_text = None\<rparr>,
                                  \<lparr>token = tok_comma, match_text = None\<rparr>],
                 fu_post_tokens = [\<lparr>token = tok_semicolon, match_text = None\<rparr>,
                                   \<lparr>token = tok_rpar, match_text = None\<rparr>]\<rparr>, c')"
proof -
  let ?layers = "[([(tok_lpar, [])], [(tok_rpar, [])]), ([(tok_comma, [])], [(tok_semicolon, [])])]"
  have h: "cache_ok Map.empty"
    "list_all (\<lambda>(pre, post). list_all token_parser_ok pre \<and> list_all token_parser_ok post) ?layers"
    "direct_node_parser (Defer ''item'')"
    by (simp_all add: cache_ok_def token_parser_ok_def direct_node_parser_def example_defs)
  show ?thesis
    using extraction_accumulates_field_tokens[OF h, of example_get_type
        "FieldUnparser_init example_node example_field" "[]" 0]
    by (simp add: token_parser_def unparser_of_def FieldUnparser_init_def)
qed

subsection \<open>Top-level information loss\<close>

text \<open>The errors that the walk can raise: the top-level diagnostic of an extraction, or
  the error of the derivation of a parser that the walk records.\<close>

lemma append_rule_error:
  "append_rule gt node p st = Inl e \<Longrightarrow> from_parser gt node p (token_unparsers st) = Inl e"
  by (auto simp: append_rule_def Let_def ebind_def split: if_splits sum.splits prod.splits)

lemma append_alternatives_error:
  "append_alternatives gt alts p st = Inl e \<Longrightarrow>
     \<exists>n\<in>set alts. \<exists>c. from_parser gt n p c = Inl e"
proof (induction alts arbitrary: st)
  case Nil then show ?case by simp
next
  case (Cons a alts)
  show ?case
  proof (cases "append_rule gt a p st")
    case (Inl e')
    then have "e' = e" using Cons.prems by simp
    then show ?thesis using append_rule_error[OF Inl] by auto
  next
    case (Inr st1)
    then have "append_alternatives gt alts p st1 = Inl e" using Cons.prems by simp
    then show ?thesis using Cons.IH by auto
  qed
qed

lemma compute_step_error:
  "compute_step gt p toplevel st = Inl e \<Longrightarrow>
     e = Fatal (PyStr ''Top-level information loss prevents unparsers generation'')
     \<or> (\<exists>(n, q)\<in>set (step_rules gt p). \<exists>c. from_parser gt n q c = Inl e)"
proof (cases p)
  case (Opt q b x)
  assume a: "compute_step gt p toplevel st = Inl e"
  show ?thesis
  proof (cases b)
    case None
    then show ?thesis using a Opt by (simp add: compute_step_def)
  next
    case (Some bz)
    then have "append_alternatives gt (alternatives_types bz) p st = Inl e"
      using a Opt by (auto simp: compute_step_def ebind_def split: sum.splits)
    then show ?thesis using append_alternatives_error[of gt "alternatives_types bz" p st e] Opt Some
      by (auto simp: step_rules_def)
  qed
next
  case (List q sep)
  assume a: "compute_step gt p toplevel st = Inl e"
  then have "append_rule gt (gt p) p st = Inl e"
    using List by (auto simp: compute_step_def ebind_def split: sum.splits)
  then show ?thesis using append_rule_error[of gt "gt p" p st e] List
    by (auto simp: step_rules_def)
next
  case (Transform ps)
  assume a: "compute_step gt p toplevel st = Inl e"
  then have "append_rule gt (gt p) p st = Inl e"
    using Transform by (auto simp: compute_step_def ebind_def split: sum.splits)
  then show ?thesis using append_rule_error[of gt "gt p" p st e] Transform
    by (auto simp: step_rules_def)
next
  case (Extract ps i)
  assume a: "compute_step gt p toplevel st = Inl e"
  then show ?thesis using Extract
    by (auto simp: compute_step_def ebind_def check_source_language_def split: if_splits)
qed (simp_all add: compute_step_def)

lemma walk_error:
  "(compute_internal gt p toplevel st = Inl e \<longrightarrow>
      e = Fatal (PyStr ''Top-level information loss prevents unparsers generation'')
      \<or> (\<exists>(n, q)\<in>set (recorded_rules gt p). \<exists>c. from_parser gt n q c = Inl e))"
  and walk_children_error:
  "(compute_children gt cs toplevel st = Inl e \<longrightarrow>
      e = Fatal (PyStr ''Top-level information loss prevents unparsers generation'')
      \<or> (\<exists>(n, q)\<in>set (concat (map (recorded_rules gt) cs)).
            \<exists>c. from_parser gt n q c = Inl e))"
proof (induction gt p toplevel st and gt cs toplevel st
       rule: compute_internal_compute_children.induct)
  case (1 gt p toplevel st)
  show ?case
  proof
    assume a: "compute_internal gt p toplevel st = Inl e"
    show "e = Fatal (PyStr ''Top-level information loss prevents unparsers generation'')
      \<or> (\<exists>(n, q)\<in>set (recorded_rules gt p). \<exists>c. from_parser gt n q c = Inl e)"
    proof (cases "compute_step gt p toplevel st")
      case (Inl e')
      then have "e' = e" using a by (simp add: compute_internal.simps)
      then show ?thesis
        using compute_step_error[OF Inl] recorded_rules_children[of gt p] by auto
    next
      case (Inr r)
      obtain st1 tl1 where r: "r = (st1, tl1)" by (cases r)
      have s: "compute_step gt p toplevel st = Inr (st1, tl1)" using Inr r by simp
      have "compute_children gt (children p) tl1 st1 = Inl e"
        using a s by (simp add: compute_internal.simps)
      then show ?thesis
        using "1.IH"[OF s refl] recorded_rules_children[of gt p] by auto
    qed
  qed
next
  case (2 gt toplevel st)
  then show ?case by simp
next
  case (3 gt c cs toplevel st)
  show ?case
  proof
    assume a: "compute_children gt (c # cs) toplevel st = Inl e"
    show "e = Fatal (PyStr ''Top-level information loss prevents unparsers generation'')
      \<or> (\<exists>(n, q)\<in>set (concat (map (recorded_rules gt) (c # cs))).
            \<exists>c. from_parser gt n q c = Inl e)"
    proof (cases "compute_internal gt c toplevel st")
      case (Inl e')
      then have "e' = e" using a by simp
      then show ?thesis using "3.IH"(1) Inl by auto
    next
      case (Inr st1)
      then have "compute_children gt cs toplevel st1 = Inl e" using a by simp
      then show ?thesis using "3.IH"(2)[OF Inr] by auto
    qed
  qed
qed

lemma compute_internal_extract_fatal:
  "generate_unparser st \<Longrightarrow> \<not> node_then_termination ps \<Longrightarrow>
     compute_internal gt (Extract ps i) True st
       = Inl (Fatal (PyStr ''Top-level information loss prevents unparsers generation''))"
  using compute_step_extract_fatal[of st ps gt i] by (simp add: compute_internal.simps)

lemma token_unparser_for_total:
  "token_parser_ok (val, mt) \<Longrightarrow> \<exists>r c'. token_unparser_for val mt c = Inr (r, c')"
  by (cases "c (val, if mt \<noteq> [] then Some mt else None)")
     (auto simp: token_unparser_for_def Let_def TokenUnparser_init_def truthy_text_def
        token_parser_ok_def)

lemma paren_parser_derivable:
  "\<exists>u. from_parser example_get_type example_node paren_parser c = Inr u"
proof -
  obtain r1 c1 where 1: "token_unparser_for tok_lpar [] c = Inr (r1, c1)"
    using token_unparser_for_total[of tok_lpar "[]" c]
    by (auto simp: token_parser_ok_def tok_lpar_def)
  obtain r2 c2 where 2: "token_unparser_for tok_rpar [] c1 = Inr (r2, c2)"
    using token_unparser_for_total[of tok_rpar "[]" c1]
    by (auto simp: token_parser_ok_def tok_rpar_def)
  have d: "direct_node_parser (Defer ''item'')" by (simp add: direct_node_parser_def)
  have n: "\<not> abstract example_node" "\<not> synthetic example_node"
    "\<not> is_token_node example_node" "parse_fields example_node = [example_field]"
    by (simp_all add: example_node_def)
  show ?thesis
    using 1 2 n direct_not_discard[OF d]
    by (simp add: paren_parser_def
          from_parser.simps[of example_get_type example_node
            "Transform [Token tok_lpar [], Defer ''item'', Token tok_rpar []]"]
          RegularNodeUnparser_init_def FieldUnparser_init_def emit_token
          emit_to_field_direct[OF d])
qed

text \<open>
  C3. While generation is requested, every call of the walk on an extraction with
  \<^verbatim>\<open>toplevel\<close> still true and a row other than (node, termination token) raises the
  fatal "Top-level information loss" diagnostic, whatever the registry holds; so
  \<^verbatim>\<open>compute\<close> on a rule whose root is such an extraction raises it. For a rule in which
  such an extraction lies below combinators that keep \<^verbatim>\<open>toplevel\<close> true, \<^verbatim>\<open>compute\<close>
  returns no state (this is not a soft-abort): the error is that diagnostic, or the error
  of the derivation of a node-creating parser that the walk records, when that derivation
  fails first; when the derivations of all recorded parsers succeed, the error is that
  diagnostic.
\<close>

theorem toplevel_information_loss_is_fatal:
  assumes "generate_unparser st"
  shows "(\<not> node_then_termination ps \<longrightarrow>
            compute_internal get_type (Extract ps i) True st
              = Inl (Fatal (PyStr ''Top-level information loss prevents unparsers generation'')))
       \<and> (\<not> is_dont_skip_parser r \<and> rule_parser r = Extract ps i
            \<and> \<not> node_then_termination ps \<longrightarrow>
            compute get_type r st
              = Inl (Fatal (PyStr ''Top-level information loss prevents unparsers generation'')))
       \<and> (\<not> is_dont_skip_parser r \<and> toplevel_loss (rule_parser r) \<longrightarrow>
            (\<exists>e. compute get_type r st = Inl e
               \<and> (e = Fatal (PyStr ''Top-level information loss prevents unparsers generation'')
                  \<or> (\<exists>(n, q)\<in>set (recorded_rules get_type (rule_parser r)).
                        \<exists>c. from_parser get_type n q c = Inl e))))
       \<and> (\<not> is_dont_skip_parser r \<and> toplevel_loss (rule_parser r)
            \<and> (\<forall>(n, q)\<in>set (recorded_rules get_type (rule_parser r)).
                  \<forall>c. \<exists>u. from_parser get_type n q c = Inr u) \<longrightarrow>
            compute get_type r st
              = Inl (Fatal (PyStr ''Top-level information loss prevents unparsers generation'')))"
proof -
  let ?d = "Fatal (PyStr ''Top-level information loss prevents unparsers generation'')"
  have 1: "\<not> node_then_termination ps \<longrightarrow>
            compute_internal get_type (Extract ps i) True st = Inl ?d"
    using assms compute_internal_extract_fatal[of st ps get_type i] by simp
  have 2: "\<not> is_dont_skip_parser r \<and> rule_parser r = Extract ps i
            \<and> \<not> node_then_termination ps \<longrightarrow> compute get_type r st = Inl ?d"
    using 1 by (auto simp: compute_def)
  have 3: "\<not> is_dont_skip_parser r \<and> toplevel_loss (rule_parser r) \<longrightarrow>
            (\<exists>e. compute get_type r st = Inl e
               \<and> (e = ?d
                  \<or> (\<exists>(n, q)\<in>set (recorded_rules get_type (rule_parser r)).
                        \<exists>c. from_parser get_type n q c = Inl e)))"
  proof
    assume h: "\<not> is_dont_skip_parser r \<and> toplevel_loss (rule_parser r)"
    then obtain e where e: "compute_internal get_type (rule_parser r) True st = Inl e"
      using assms loss_stops_walk[of st True "rule_parser r" get_type] by auto
    have "compute get_type r st = Inl e" using h e by (simp add: compute_def)
    then show "\<exists>e. compute get_type r st = Inl e
               \<and> (e = ?d
                  \<or> (\<exists>(n, q)\<in>set (recorded_rules get_type (rule_parser r)).
                        \<exists>c. from_parser get_type n q c = Inl e))"
      using walk_error[of get_type "rule_parser r" True st e] e by blast
  qed
  have 4: "\<not> is_dont_skip_parser r \<and> toplevel_loss (rule_parser r)
            \<and> (\<forall>(n, q)\<in>set (recorded_rules get_type (rule_parser r)).
                  \<forall>c. \<exists>u. from_parser get_type n q c = Inr u) \<longrightarrow>
            compute get_type r st = Inl ?d"
  proof
    assume h: "\<not> is_dont_skip_parser r \<and> toplevel_loss (rule_parser r)
            \<and> (\<forall>(n, q)\<in>set (recorded_rules get_type (rule_parser r)).
                  \<forall>c. \<exists>u. from_parser get_type n q c = Inr u)"
    then obtain e where e: "compute get_type r st = Inl e"
      and d: "e = ?d \<or> (\<exists>(n, q)\<in>set (recorded_rules get_type (rule_parser r)).
                        \<exists>c. from_parser get_type n q c = Inl e)"
      using 3 by blast
    have "\<not> (\<exists>(n, q)\<in>set (recorded_rules get_type (rule_parser r)).
                        \<exists>c. from_parser get_type n q c = Inl e)"
    proof
      assume "\<exists>(n, q)\<in>set (recorded_rules get_type (rule_parser r)).
                        \<exists>c. from_parser get_type n q c = Inl e"
      then obtain n q c where m: "(n, q) \<in> set (recorded_rules get_type (rule_parser r))"
        and f: "from_parser get_type n q c = Inl e" by auto
      from h m obtain u where "from_parser get_type n q c = Inr u" by fastforce
      then show False using f by simp
    qed
    then show "compute get_type r st = Inl ?d" using e d by simp
  qed
  show ?thesis using 1 2 3 4 by blast
qed

theorem toplevel_information_loss_is_fatal_witness:
  "generate_unparser (Unparsers_init True) \<and> \<not> is_dont_skip_parser lossy_rule
   \<and> \<not> node_then_termination [Token tok_lpar [], Defer ''item'', Token tok_rpar []]
   \<and> compute_internal example_get_type (rule_parser lossy_rule) True (Unparsers_init True)
       = Inl (Fatal (PyStr ''Top-level information loss prevents unparsers generation''))
   \<and> compute example_get_type lossy_rule (Unparsers_init True)
       = Inl (Fatal (PyStr ''Top-level information loss prevents unparsers generation''))
   \<and> toplevel_loss (Or [paren_parser, rule_parser lossy_rule])
   \<and> recorded_rules example_get_type (Or [paren_parser, rule_parser lossy_rule])
       = [(example_node, paren_parser)]
   \<and> compute example_get_type
        \<lparr>rule_name = ''alternatives'', is_dont_skip_parser = False,
         rule_parser = Or [paren_parser, rule_parser lossy_rule]\<rparr>
        (Unparsers_init True)
       = Inl (Fatal (PyStr ''Top-level information loss prevents unparsers generation''))"
proof -
  let ?ps = "[Token tok_lpar [], Defer ''item'', Token tok_rpar []]"
  let ?alt = "\<lparr>rule_name = ''alternatives'', is_dont_skip_parser = False,
         rule_parser = Or [paren_parser, rule_parser lossy_rule]\<rparr>"
  have g: "generate_unparser (Unparsers_init True)" by (simp add: Unparsers_init_def)
  have d: "\<not> is_dont_skip_parser lossy_rule" by (simp add: lossy_rule_def)
  have n: "\<not> node_then_termination ?ps" by simp
  have l: "toplevel_loss (Or [paren_parser, rule_parser lossy_rule])"
    by (simp add: lossy_rule_def paren_parser_def)
  have rr: "recorded_rules example_get_type (Or [paren_parser, rule_parser lossy_rule])
       = [(example_node, paren_parser)]"
    by (simp add: lossy_rule_def paren_parser_def example_get_type_def)
  have a: "compute_internal example_get_type (rule_parser lossy_rule) True (Unparsers_init True)
       = Inl (Fatal (PyStr ''Top-level information loss prevents unparsers generation''))"
    using toplevel_information_loss_is_fatal[OF g, where ps = ?ps and get_type = example_get_type
        and i = 1 and r = lossy_rule]
    by (simp add: lossy_rule_def)
  have b: "compute example_get_type lossy_rule (Unparsers_init True)
       = Inl (Fatal (PyStr ''Top-level information loss prevents unparsers generation''))"
    using toplevel_information_loss_is_fatal[OF g, where ps = ?ps and get_type = example_get_type
        and i = 1 and r = lossy_rule]
    by (simp add: lossy_rule_def)
  have d2: "\<not> is_dont_skip_parser ?alt" by simp
  have l2: "toplevel_loss (rule_parser ?alt)" using l by simp
  have h: "\<forall>(n, q)\<in>set (recorded_rules example_get_type (rule_parser ?alt)).
             \<forall>c. \<exists>u. from_parser example_get_type n q c = Inr u"
    using rr paren_parser_derivable by simp
  have c: "compute example_get_type ?alt (Unparsers_init True)
       = Inl (Fatal (PyStr ''Top-level information loss prevents unparsers generation''))"
    using toplevel_information_loss_is_fatal[OF g, where ps = "[]" and get_type = example_get_type
        and i = 0 and r = ?alt] d2 l2 h
    by blast
  show ?thesis using g d n l rr a b c by blast
qed

end
